theory Spec2Isabelle
  imports Complex_Main
begin

section \<open>The agent-based model of abm.py and its driver simulation.py\<close>

text \<open>
  The program keeps a population of agents in an environment, sets every agent up with a
  random value and a random list of neighbours, and then runs rounds: a pool of worker
  processes computes every agent's next value, and the master process writes the values
  back afterwards.

  Conventions of the embedding.
  \<^item> Python's \<open>None\<close> is \<open>None\<close> of an option type; an attribute that \<open>__init__\<close> has not
    bound yet (\<open>id\<close>, until \<open>register\<close> has returned) is \<open>None\<close> as well.
  \<^item> Numbers are exact rationals. Python's \<open>/\<close> gives an IEEE double: it rounds, and it
    raises OverflowError when the quotient is beyond the range of doubles. Neither the
    rounding nor this exception is part of the embedding, so nothing below says that a
    computation of the program does not raise.
  \<^item> An exception is a value of type \<open>error\<close> on the left of a sum.
  \<^item> An object of the population is the record in its slot of the list: the constructor
    is the only caller of \<open>register\<close> and registers a fresh object, so no two slots share
    an object, and a write through a reference that \<open>lookup\<close> returned is an update of
    the slot it came from.
  \<^item> The ambient random generator is an explicit stream of draws.
  \<^item> \<open>time.sleep\<close> (with the exception it raises for a time too large), \<open>time.time\<close> and
    the printed text have no counterpart: a round's report is the data of the line that
    \<open>doit\<close> prints, without the elapsed seconds.
\<close>

subsection \<open>Data\<close>

datatype error = IndexError | TypeError | ZeroDivisionError | ValueError | AttributeError

record agent =
  neighbors :: "int list"
  cur_data :: "rat option"
  next_data :: "rat option"
  process_time :: rat
  agent_id :: "int option"

record environment =
  population :: "agent list"
  my_special_stuff :: rat

text \<open>The dictionary \<open>params\<close> of simulation.py: a literal with these six keys.\<close>

record params =
  p_neighbors :: int
  p_max :: int
  p_iterations :: int
  p_agents :: int
  p_processes :: int
  p_process_time :: rat

subsection \<open>Environment\<close>

definition Environment_init :: environment where
  "Environment_init = \<lparr>population = [], my_special_stuff = 3\<rparr>"

text \<open>
  \<open>self.population[id]\<close>: Python resolves an index \<open>i\<close> of a list of length \<open>n\<close> to the
  position \<open>i\<close> when \<open>0 \<le> i < n\<close>, to \<open>n + i\<close> when \<open>-n \<le> i < 0\<close>, and raises IndexError
  otherwise.
\<close>

definition list_index :: "'a list \<Rightarrow> int \<Rightarrow> error + nat" where
  "list_index xs i =
     (let n = int (length xs) in
      if 0 \<le> i \<and> i < n then Inr (nat i)
      else if - n \<le> i \<and> i < 0 then Inr (nat (n + i))
      else Inl IndexError)"

definition lookup :: "environment \<Rightarrow> int \<Rightarrow> error + agent" where
  "lookup env i =
     (case list_index (population env) i of
        Inl e \<Rightarrow> Inl e
      | Inr j \<Rightarrow> Inr (population env ! j))"

definition register :: "environment \<Rightarrow> agent \<Rightarrow> environment \<times> int" where
  "register env a =
     (let env' = env\<lparr>population := population env @ [a]\<rparr>
      in (env', int (length (population env')) - 1))"

subsection \<open>Agent\<close>

text \<open>
  \<open>Agent(env)\<close>: the fields are bound, the object is registered, and the id that
  \<open>register\<close> returns is bound last, on the object that now sits in the last slot.
\<close>

definition Agent_init :: "environment \<Rightarrow> environment" where
  "Agent_init env =
     (let self = \<lparr>neighbors = [], cur_data = None, next_data = None,
                  process_time = 0, agent_id = None\<rparr>;
          (env', i) = register env self;
          last_slot = length (population env') - 1
      in env'\<lparr>population := (population env')[last_slot := self\<lparr>agent_id := Some i\<rparr>]\<rparr>)"

subsubsection \<open>The random generator\<close>

text \<open>
  A generator is the stream of the draws it is going to deliver. \<open>randbelow n\<close> is the
  library's primitive: a number below \<open>n\<close>. \<open>random.randint a b\<close> raises ValueError on an
  empty range. \<open>random.sample l k\<close> raises ValueError unless \<open>0 \<le> k \<le> len l\<close>, and then
  selects \<open>k\<close> times without replacement: the chosen position is refilled with the last
  entry of the pool that is still active. This is the branch that CPython takes for up to
  21 candidates; for more it draws positions again until they are new, and picks other
  elements on the same draws. What is proved below of a sample (its length, that it has
  no duplicates, that its elements come from the list) holds of both.
\<close>

type_synonym rng = "nat \<Rightarrow> nat"

definition randbelow :: "nat \<Rightarrow> rng \<Rightarrow> nat \<times> rng" where
  "randbelow n g = (g 0 mod n, \<lambda>i. g (Suc i))"

definition randint :: "int \<Rightarrow> int \<Rightarrow> rng \<Rightarrow> error + (int \<times> rng)" where
  "randint a b g =
     (if b < a then Inl ValueError
      else (let (j, g') = randbelow (nat (b - a + 1)) g in Inr (a + int j, g')))"

fun sample_loop :: "'a list \<Rightarrow> nat \<Rightarrow> rng \<Rightarrow> 'a list \<times> rng" where
  "sample_loop pool 0 g = ([], g)"
| "sample_loop pool (Suc k) g =
     (let (j, g1) = randbelow (length pool) g;
          (rest, g2) = sample_loop (butlast (pool[j := last pool])) k g1
      in (pool ! j # rest, g2))"

definition sample :: "'a list \<Rightarrow> int \<Rightarrow> rng \<Rightarrow> error + ('a list \<times> rng)" where
  "sample l k g =
     (if k < 0 \<or> int (length l) < k then Inl ValueError
      else Inr (sample_loop l (nat k) g))"

text \<open>\<open>l.remove(x)\<close> deletes the first occurrence and raises ValueError when there is none.\<close>

definition list_remove :: "'a list \<Rightarrow> 'a \<Rightarrow> error + 'a list" where
  "list_remove l x = (if x \<in> set l then Inr (remove1 x l) else Inl ValueError)"

subsubsection \<open>setup\<close>

definition Agent_setup :: "params \<Rightarrow> environment \<Rightarrow> agent \<Rightarrow> rng \<Rightarrow> error + (agent \<times> rng)" where
  "Agent_setup ps env self g =
     (case randint (- p_max ps) (p_max ps) g of
        Inl e \<Rightarrow> Inl e
      | Inr (v, g1) \<Rightarrow>
          (let self1 = self\<lparr>cur_data := Some (of_int v)\<rparr>;
               self2 = self1\<lparr>process_time := p_process_time ps\<rparr>;
               l = map int [0..<length (population env)]
           in case agent_id self2 of
                None \<Rightarrow> Inl AttributeError
              | Some i \<Rightarrow>
                  (case list_remove l i of
                     Inl e \<Rightarrow> Inl e
                   | Inr l' \<Rightarrow>
                       (case sample l' (p_neighbors ps) g1 of
                          Inl e \<Rightarrow> Inl e
                        | Inr (s, g2) \<Rightarrow> Inr (self2\<lparr>neighbors := s\<rparr>, g2)))))"

subsubsection \<open>calculate\_update and do\_update\<close>

text \<open>The function \<open>f = lambda x: env.lookup(x).cur_data\<close> inside \<open>calculate_update\<close>.\<close>

definition lookup_cur_data :: "environment \<Rightarrow> int \<Rightarrow> error + rat option" where
  "lookup_cur_data env x = (case lookup env x of Inl e \<Rightarrow> Inl e | Inr b \<Rightarrow> Inr (cur_data b))"

text \<open>
  \<open>sum(map(f, self.neighbors))\<close> walks the neighbour list from the left, starting from 0:
  \<open>f\<close> is applied to each id (IndexError) and its result added (TypeError on \<open>None\<close>).
\<close>

fun sum_map :: "environment \<Rightarrow> rat \<Rightarrow> int list \<Rightarrow> error + rat" where
  "sum_map env acc [] = Inr acc"
| "sum_map env acc (x # xs) =
     (case lookup_cur_data env x of
        Inl e \<Rightarrow> Inl e
      | Inr None \<Rightarrow> Inl TypeError
      | Inr (Some d) \<Rightarrow> sum_map env (acc + d) xs)"

text \<open>
  The result is the agent with \<open>next_data\<close> bound, and the value returned. The
  environment is read only.
\<close>

definition calculate_update :: "agent \<Rightarrow> environment \<Rightarrow> error + (agent \<times> rat)" where
  "calculate_update self env =
     (case sum_map env 0 (neighbors self) of
        Inl e \<Rightarrow> Inl e
      | Inr s \<Rightarrow>
          (case cur_data self of
             None \<Rightarrow> Inl TypeError
           | Some c \<Rightarrow>
               if my_special_stuff env = 0 then Inl ZeroDivisionError
               else (let v = (s + c) / my_special_stuff env
                     in Inr (self\<lparr>next_data := Some v\<rparr>, v))))"

definition do_update :: "agent \<Rightarrow> rat option \<Rightarrow> agent" where
  "do_update self data =
     (case data of
        None \<Rightarrow> self\<lparr>cur_data := next_data self\<rparr>
      | Some d \<Rightarrow> self\<lparr>cur_data := Some d\<rparr>)"

subsection \<open>The driver\<close>

text \<open>
  \<open>update\<close> runs in a worker process, on an unpickled copy of the agent and on the
  worker's own copy of the environment (the global \<open>worker_env\<close>). The copy of the agent,
  with its \<open>next_data\<close>, stays in the worker.
\<close>

definition update :: "environment \<Rightarrow> agent \<Rightarrow> error + (int \<times> rat)" where
  "update worker_env a =
     (case agent_id a of
        None \<Rightarrow> Inl AttributeError
      | Some i \<Rightarrow>
          (case calculate_update a worker_env of
             Inl e \<Rightarrow> Inl e
           | Inr (a', v) \<Rightarrow> Inr (i, v)))"

subsubsection \<open>The pool\<close>

text \<open>
  \<open>Pool(processes, initializer, initargs=(env,))\<close> raises ValueError for fewer than one
  process; each worker starts with a copy of \<open>env\<close> as it is when the pool is made.
  \<open>p.map(f, xs)\<close> cuts \<open>xs\<close> into chunks, hands the chunks to the workers, and waits for all
  of them. A chunk is worked off from the left and ends at its first exception. The
  results come back in the order of \<open>xs\<close>, whatever the order of completion; if chunks
  failed, the exception of the one that completed first is raised. The order of
  completion is not the program's to choose: it is the parameter \<open>t\<close>, the time at which
  each chunk completes.
\<close>

definition chunksize :: "nat \<Rightarrow> nat \<Rightarrow> nat" where
  "chunksize n procs =
     (if n = 0 then 0
      else (let c = n div (procs * 4); extra = n mod (procs * 4)
            in if extra \<noteq> 0 then c + 1 else c))"

fun chunks :: "nat \<Rightarrow> 'a list \<Rightarrow> 'a list list" where
  "chunks c xs = (if c = 0 \<or> xs = [] then [] else take c xs # chunks c (drop c xs))"

declare chunks.simps [simp del]

fun mapstar :: "('a \<Rightarrow> error + 'b) \<Rightarrow> 'a list \<Rightarrow> error + 'b list" where
  "mapstar f [] = Inr []"
| "mapstar f (x # xs) =
     (case f x of
        Inl e \<Rightarrow> Inl e
      | Inr y \<Rightarrow> (case mapstar f xs of Inl e \<Rightarrow> Inl e | Inr ys \<Rightarrow> Inr (y # ys)))"

fun failures :: "nat \<Rightarrow> (error + 'b) list \<Rightarrow> (nat \<times> error) list" where
  "failures i [] = []"
| "failures i (Inl e # rs) = (i, e) # failures (Suc i) rs"
| "failures i (Inr y # rs) = failures (Suc i) rs"

fun earliest :: "(nat \<Rightarrow> nat) \<Rightarrow> (nat \<times> error) list \<Rightarrow> (nat \<times> error) option" where
  "earliest t [] = None"
| "earliest t ((i, e) # fs) =
     (case earliest t fs of
        None \<Rightarrow> Some (i, e)
      | Some (j, e') \<Rightarrow> if t i \<le> t j then Some (i, e) else Some (j, e'))"

fun successes :: "(error + 'b) list \<Rightarrow> 'b list" where
  "successes [] = []"
| "successes (Inl e # rs) = successes rs"
| "successes (Inr y # rs) = y # successes rs"

definition pool_map ::
  "int \<Rightarrow> (nat \<Rightarrow> nat) \<Rightarrow> ('a \<Rightarrow> error + 'b) \<Rightarrow> 'a list \<Rightarrow> error + 'b list" where
  "pool_map processes t f xs =
     (if processes < 1 then Inl ValueError
      else (let rs = map (mapstar f) (chunks (chunksize (length xs) (nat processes)) xs)
            in case earliest t (failures 0 rs) of
                 Some (i, e) \<Rightarrow> Inl e
               | None \<Rightarrow> Inr (concat (successes rs))))"

subsubsection \<open>One round\<close>

text \<open>
  The loop \<open>for id, data in result: env.lookup(id).do_update(data)\<close>. \<open>lookup\<close> resolves
  the id to a slot as above and returns the object in it, which \<open>do_update\<close> then
  changes in place. An exception leaves the environment as the loop has made it so far.
\<close>

fun commit :: "environment \<Rightarrow> (int \<times> rat) list \<Rightarrow> (error \<times> environment) + environment" where
  "commit env [] = Inr env"
| "commit env ((i, data) # result) =
     (case list_index (population env) i of
        Inl e \<Rightarrow> Inl (e, env)
      | Inr j \<Rightarrow>
          commit (env\<lparr>population :=
                    (population env)[j := do_update (population env ! j) (Some data)]\<rparr>)
                 result)"

text \<open>The body of the loop over the iterations, up to the commit.\<close>

definition do_round ::
  "int \<Rightarrow> (nat \<Rightarrow> nat) \<Rightarrow> environment \<Rightarrow> (error \<times> environment) + environment" where
  "do_round processes t env =
     (case pool_map processes t (update env) (population env) of
        Inl e \<Rightarrow> Inl (e, env)
      | Inr result \<Rightarrow> commit env result)"

text \<open>What the printed line of iteration \<open>i\<close> shows: \<open>i\<close> and every agent's id and value.\<close>

type_synonym report = "nat \<times> (int option \<times> rat option) list"

definition report_of :: "nat \<Rightarrow> environment \<Rightarrow> report" where
  "report_of i env = (i, map (\<lambda>x. (agent_id x, cur_data x)) (population env))"

text \<open>
  \<open>for i in range(iterations)\<close>, as the iterations \<open>i, i + 1, \<dots>\<close> that are left: the
  reports printed, and the environment at the end or the exception that ended the run
  with the environment at that moment. \<open>ts i\<close> is the order of completion in iteration \<open>i\<close>.
\<close>

fun run_rounds ::
  "int \<Rightarrow> (nat \<Rightarrow> nat \<Rightarrow> nat) \<Rightarrow> nat \<Rightarrow> nat \<Rightarrow> environment
     \<Rightarrow> report list \<times> ((error \<times> environment) + environment)" where
  "run_rounds processes ts i 0 env = ([], Inr env)"
| "run_rounds processes ts i (Suc n) env =
     (case do_round processes (ts i) env of
        Inl x \<Rightarrow> ([], Inl x)
      | Inr env' \<Rightarrow>
          (let (reports, out) = run_rounds processes ts (Suc i) n env'
           in (report_of i env' # reports, out)))"

subsubsection \<open>doit\<close>

fun create_agents :: "nat \<Rightarrow> environment \<Rightarrow> environment" where
  "create_agents 0 env = env"
| "create_agents (Suc n) env = create_agents n (Agent_init env)"

text \<open>\<open>for a in env.population: a.setup(params, env)\<close>, over the slots that are left.\<close>

fun setup_slots ::
  "params \<Rightarrow> nat list \<Rightarrow> environment \<Rightarrow> rng \<Rightarrow> error + (environment \<times> rng)" where
  "setup_slots ps [] env g = Inr (env, g)"
| "setup_slots ps (j # js) env g =
     (case Agent_setup ps env (population env ! j) g of
        Inl e \<Rightarrow> Inl e
      | Inr (a, g') \<Rightarrow> setup_slots ps js (env\<lparr>population := (population env)[j := a]\<rparr>) g')"

definition setup_all :: "params \<Rightarrow> environment \<Rightarrow> rng \<Rightarrow> error + (environment \<times> rng)" where
  "setup_all ps env g = setup_slots ps [0..<length (population env)] env g"

text \<open>
  The whole run: the reports, and how it ended. An exception during the setup loop ends
  the run before any round.
\<close>

definition doit ::
  "params \<Rightarrow> rng \<Rightarrow> (nat \<Rightarrow> nat \<Rightarrow> nat) \<Rightarrow> report list \<times> (error + environment)" where
  "doit ps g ts =
     (let env = create_agents (nat (p_agents ps)) Environment_init
      in case setup_all ps env g of
           Inl e \<Rightarrow> ([], Inl e)
         | Inr (env1, g1) \<Rightarrow>
             (let (reports, out) = run_rounds (p_processes ps) ts 0 (nat (p_iterations ps)) env1
              in (reports, case out of Inl (e, env2) \<Rightarrow> Inl e | Inr env2 \<Rightarrow> Inr env2)))"

subsection \<open>Predicates on environments\<close>

text \<open>The ids are the positions: what the constructor and \<open>register\<close> establish.\<close>

definition ids_ok :: "environment \<Rightarrow> bool" where
  "ids_ok env =
     (map agent_id (population env) = map (\<lambda>j. Some (int j)) [0..<length (population env)])"

text \<open>
  What the neighbour list of an agent is after its setup, in a population of size \<open>n\<close> with
  \<open>k\<close> neighbours asked for: no duplicates, \<open>k\<close> entries, each the position of an agent,
  none the agent's own id.
\<close>

definition neighbor_inv :: "int \<Rightarrow> nat \<Rightarrow> agent \<Rightarrow> bool" where
  "neighbor_inv k n a =
     (distinct (neighbors a) \<and> int (length (neighbors a)) = k \<and>
      list_all (\<lambda>x. 0 \<le> x \<and> x < int n \<and> Some x \<noteq> agent_id a) (neighbors a))"

definition neighbors_ok :: "int \<Rightarrow> environment \<Rightarrow> bool" where
  "neighbors_ok k env = list_all (neighbor_inv k (length (population env))) (population env)"

text \<open>
  An environment in which no update raises AttributeError, IndexError, TypeError or
  ZeroDivisionError: the ids are the positions, the shared divisor is not zero, every
  agent has a current value, and every neighbour id is an index that Python accepts.
\<close>

definition ready :: "environment \<Rightarrow> bool" where
  "ready env =
     (ids_ok env \<and> my_special_stuff env \<noteq> 0 \<and>
      list_all (\<lambda>a. cur_data a \<noteq> None \<and>
                  list_all (\<lambda>x. - int (length (population env)) \<le> x \<and>
                                x < int (length (population env))) (neighbors a))
        (population env))"

text \<open>
  The environment with every current value blanked: what is left is everything that a
  commit does not write.
\<close>

definition frame_of :: "environment \<Rightarrow> environment" where
  "frame_of env = env\<lparr>population := map (\<lambda>a. a\<lparr>cur_data := None\<rparr>) (population env)\<rparr>"

text \<open>The environment a run ends in, whether it ended normally or by an exception.\<close>

definition final_env :: "report list \<times> ((error \<times> environment) + environment) \<Rightarrow> environment" where
  "final_env r = (case snd r of Inl (e, env) \<Rightarrow> env | Inr env \<Rightarrow> env)"

text \<open>
  \<open>es\<close> are the environments that successive rounds commit, from \<open>env\<close> and iteration
  \<open>i\<close> on: each is what the round of its iteration makes of the one before.
\<close>

fun rounds_chain ::
  "int \<Rightarrow> (nat \<Rightarrow> nat \<Rightarrow> nat) \<Rightarrow> nat \<Rightarrow> environment \<Rightarrow> environment list \<Rightarrow> bool" where
  "rounds_chain processes ts i env [] = True"
| "rounds_chain processes ts i env (e # es) =
     (do_round processes (ts i) env = Inr e \<and> rounds_chain processes ts (Suc i) e es)"

subsection \<open>Concrete inputs\<close>

text \<open>The literal \<open>params\<close> of simulation.py.\<close>

definition sim_params :: params where
  "sim_params =
     \<lparr>p_neighbors = 3, p_max = 50, p_iterations = 30, p_agents = 20, p_processes = 15,
      p_process_time = 1 / 4\<rparr>"

text \<open>
  Three agents in a ring: agent 0 reads agent 1, agent 1 reads agent 2, agent 2 reads
  agent 0; the values are 10, 20, 30 and the shared divisor is 1.
\<close>

definition ring_env :: environment where
  "ring_env =
     \<lparr>population =
        [\<lparr>neighbors = [1], cur_data = Some 10, next_data = None, process_time = 0,
          agent_id = Some 0\<rparr>,
         \<lparr>neighbors = [2], cur_data = Some 20, next_data = None, process_time = 0,
          agent_id = Some 1\<rparr>,
         \<lparr>neighbors = [0], cur_data = Some 30, next_data = None, process_time = 0,
          agent_id = Some 2\<rparr>],
      my_special_stuff = 1\<rparr>"

section \<open>Properties\<close>

subsection \<open>Indexing and lookup\<close>

lemma list_index_fails:
  "(list_index xs i = Inl IndexError) = (i < - int (length xs) \<or> int (length xs) \<le> i)"
  by (auto simp: list_index_def Let_def)

lemma list_index_nonneg:
  "0 \<le> i \<Longrightarrow> i < int (length xs) \<Longrightarrow> list_index xs i = Inr (nat i)"
  by (simp add: list_index_def)

lemma list_index_nat: "j < length xs \<Longrightarrow> list_index xs (int j) = Inr j"
  by (simp add: list_index_def)

lemma list_index_bound: "list_index xs i = Inr j \<Longrightarrow> j < length xs"
  by (auto simp: list_index_def Let_def split: if_splits)

lemma lookup_nonneg:
  "0 \<le> i \<Longrightarrow> i < int (length (population env)) \<Longrightarrow> lookup env i = Inr (population env ! nat i)"
  by (simp add: lookup_def list_index_def)

text \<open>
  Claim C4, as the code has it. \<open>lookup\<close> raises (IndexError) exactly for an id below
  \<open>-n\<close> or from \<open>n\<close> on, \<open>n\<close> the size of the population. For \<open>0 \<le> id < n\<close> it returns
  the agent at position \<open>id\<close>; for \<open>-n \<le> id < 0\<close> it does not fail but returns the agent
  at position \<open>n + id\<close>, counting from the end.
\<close>

theorem lookup_python_index:
  "(lookup env i = Inl IndexError) =
     (i < - int (length (population env)) \<or> int (length (population env)) \<le> i) \<and>
   (0 \<le> i \<and> i < int (length (population env)) \<longrightarrow>
      lookup env i = Inr (population env ! nat i)) \<and>
   (- int (length (population env)) \<le> i \<and> i < 0 \<longrightarrow>
      lookup env i = Inr (population env ! nat (int (length (population env)) + i)))"
  by (auto simp: lookup_def list_index_def Let_def)

subsection \<open>Registration\<close>

lemma register_eq:
  "register env a = (env\<lparr>population := population env @ [a]\<rparr>, int (length (population env)))"
  by (simp add: register_def Let_def)

lemma Agent_init_eq:
  "Agent_init env =
     env\<lparr>population := population env @
       [\<lparr>neighbors = [], cur_data = None, next_data = None, process_time = 0,
         agent_id = Some (int (length (population env)))\<rparr>]\<rparr>"
  by (simp add: Agent_init_def register_eq Let_def)

lemma ids_ok_nth:
  assumes "ids_ok env" and "j < length (population env)"
  shows "agent_id (population env ! j) = Some (int j)"
proof -
  from assms(1) have
    "map agent_id (population env) ! j =
     map (\<lambda>j. Some (int j)) [0..<length (population env)] ! j"
    by (simp add: ids_ok_def)
  with assms(2) show ?thesis by simp
qed

lemma ids_ok_Agent_init: "ids_ok env \<Longrightarrow> ids_ok (Agent_init env)"
  by (simp add: ids_ok_def Agent_init_eq)

lemma length_Agent_init: "length (population (Agent_init env)) = Suc (length (population env))"
  by (simp add: Agent_init_eq)

lemma special_Agent_init: "my_special_stuff (Agent_init env) = my_special_stuff env"
  by (simp add: Agent_init_eq)

lemma ids_ok_create_agents: "ids_ok env \<Longrightarrow> ids_ok (create_agents n env)"
  by (induction n arbitrary: env) (simp_all add: ids_ok_Agent_init)

lemma length_create_agents:
  "length (population (create_agents n env)) = length (population env) + n"
  by (induction n arbitrary: env) (simp_all add: length_Agent_init)

lemma special_create_agents: "my_special_stuff (create_agents n env) = my_special_stuff env"
  by (induction n arbitrary: env) (simp_all add: special_Agent_init)

lemma ids_ok_Environment_init: "ids_ok Environment_init"
  by (simp add: ids_ok_def Environment_init_def)

text \<open>
  Claim C7. \<open>register\<close> returns the environment with the agent appended and nothing else
  changed, and the size of the population before the call; it has no way to fail. So
  after \<open>n\<close> more agents have been constructed in an environment whose ids are the
  positions, the ids are \<open>0, \<dots>, size - 1\<close>, and \<open>lookup\<close> of each id returns the agent
  that carries it.
\<close>

theorem registration_contract:
  assumes "ids_ok env"
  shows "fst (register env a) = env\<lparr>population := population env @ [a]\<rparr> \<and>
         snd (register env a) = int (length (population env)) \<and>
         map agent_id (population (create_agents n env)) =
           map (\<lambda>j. Some (int j)) [0..<length (population env) + n] \<and>
         (i < length (population env) + n \<longrightarrow>
            lookup (create_agents n env) (int i) = Inr (population (create_agents n env) ! i) \<and>
            agent_id (population (create_agents n env) ! i) = Some (int i))"
proof -
  have ok: "ids_ok (create_agents n env)"
    using assms by (rule ids_ok_create_agents)
  have len: "length (population (create_agents n env)) = length (population env) + n"
    by (rule length_create_agents)
  have ids: "map agent_id (population (create_agents n env)) =
           map (\<lambda>j. Some (int j)) [0..<length (population env) + n]"
    using ok by (simp add: ids_ok_def len)
  have look: "lookup (create_agents n env) (int i) = Inr (population (create_agents n env) ! i)"
    if "i < length (population env) + n"
    using that lookup_nonneg [of "int i" "create_agents n env"] by (simp add: len)
  have idi: "agent_id (population (create_agents n env) ! i) = Some (int i)"
    if "i < length (population env) + n"
    using that ok by (simp add: ids_ok_nth len)
  show ?thesis
    using ids look idi by (simp add: register_eq)
qed

subsection \<open>do\_update\<close>

text \<open>
  Claim C10. \<open>do_update\<close> with a value binds \<open>cur_data\<close> to it; with \<open>None\<close>, passed or
  left out, it copies \<open>next_data\<close> into \<open>cur_data\<close>, so a \<open>None\<close> that is passed is never
  stored. No other field changes.
\<close>

theorem do_update_commit_and_frame:
  "cur_data (do_update a (Some d)) = Some d \<and>
   cur_data (do_update a None) = next_data a \<and>
   agent_id (do_update a data) = agent_id a \<and>
   neighbors (do_update a data) = neighbors a \<and>
   next_data (do_update a data) = next_data a \<and>
   process_time (do_update a data) = process_time a"
  by (simp add: do_update_def split: option.split)

subsection \<open>Sampling and setup\<close>

text \<open>
  A sample of a list without duplicates has the length asked for, no duplicates, and
  only elements of the list. From this, what a successful \<open>setup\<close> leaves in an agent,
  and what the setup loop leaves in the environment.
\<close>

lemma refill_pool:
  assumes "distinct pool" and "j < length pool"
  shows "distinct (butlast (pool[j := last pool])) \<and>
         set (butlast (pool[j := last pool])) = set pool - {pool ! j}"
proof (cases pool rule: rev_cases)
  case Nil
  with assms show ?thesis by simp
next
  case (snoc ys y)
  show ?thesis
  proof (cases "j < length ys")
    case True
    with snoc have eq: "butlast (pool[j := last pool]) = ys[j := y]"
      by (simp add: list_update_append1)
    from snoc assms(1) have d: "distinct ys" and y: "y \<notin> set ys" by simp_all
    from d y have "distinct (ys[j := y])"
      by (simp add: distinct_list_update)
    moreover from d y True have "set (ys[j := y]) = insert y (set ys - {ys ! j})"
      by (simp add: set_update_distinct)
    moreover from True snoc have "pool ! j = ys ! j" by (simp add: nth_append)
    moreover from True have "ys ! j \<in> set ys" by simp
    ultimately show ?thesis using snoc y eq by auto
  next
    case False
    with assms(2) snoc have j: "j = length ys" by simp
    with snoc have "butlast (pool[j := last pool]) = ys" by simp
    moreover from snoc j have "pool ! j = y" by simp
    ultimately show ?thesis using snoc assms(1) by auto
  qed
qed

lemma sample_loop_props:
  "distinct pool \<Longrightarrow> k \<le> length pool \<Longrightarrow> sample_loop pool k g = (s, g') \<Longrightarrow>
   length s = k \<and> distinct s \<and> set s \<subseteq> set pool"
proof (induction k arbitrary: pool g s g')
  case 0
  then show ?case by simp
next
  case (Suc k)
  define j where "j = g 0 mod length pool"
  define pool' where "pool' = butlast (pool[j := last pool])"
  from Suc.prems(2) have "0 < length pool" by (cases pool) simp_all
  then have j: "j < length pool" by (simp add: j_def)
  from refill_pool [OF Suc.prems(1) j]
  have d': "distinct pool'" and s': "set pool' = set pool - {pool ! j}"
    by (simp_all add: pool'_def)
  obtain rest g2 where r: "sample_loop pool' k (\<lambda>i. g (Suc i)) = (rest, g2)"
    by (cases "sample_loop pool' k (\<lambda>i. g (Suc i))")
  from Suc.prems(2) have "k \<le> length pool'" by (simp add: pool'_def)
  from Suc.IH [OF d' this r]
  have ih: "length rest = k" "distinct rest" "set rest \<subseteq> set pool'" by simp_all
  from Suc.prems(3) r have "s = pool ! j # rest"
    by (simp add: randbelow_def j_def pool'_def)
  with ih s' j show ?case by auto
qed

lemma set_range: "set (map int [0..<n]) = {x. 0 \<le> x \<and> x < int n}"
proof (intro set_eqI iffI)
  fix x assume "x \<in> set (map int [0..<n])"
  then show "x \<in> {x. 0 \<le> x \<and> x < int n}" by auto
next
  fix x assume "x \<in> {x. 0 \<le> x \<and> x < int n}"
  then have "x = int (nat x)" and "nat x \<in> set [0..<n]" by auto
  then show "x \<in> set (map int [0..<n])" by (metis image_eqI set_map)
qed

lemma distinct_range: "distinct (map int [0..<n])"
  by (simp add: distinct_map inj_on_def)

lemma list_remove_range:
  "list_remove (map int [0..<n]) i =
     (if 0 \<le> i \<and> i < int n then Inr (remove1 i (map int [0..<n])) else Inl ValueError)"
  unfolding list_remove_def set_range by simp

lemma length_remove1_range:
  assumes "0 \<le> i" and "i < int n"
  shows "int (length (remove1 i (map int [0..<n]))) = int n - 1"
proof -
  from assms have "i \<in> set (map int [0..<n])" unfolding set_range by simp
  then have "length (remove1 i (map int [0..<n])) = n - 1" by (simp add: length_remove1)
  moreover from assms have "0 < n" by simp
  ultimately show ?thesis by simp
qed

lemma set_remove1_range:
  "set (remove1 i (map int [0..<n])) = {x. 0 \<le> x \<and> x < int n \<and> x \<noteq> i}"
  using distinct_range [of n] set_range [of n] by (auto simp: set_remove1_eq)

lemma sample_Inr:
  assumes "sample l k g = Inr (s, g')" and "distinct l"
  shows "int (length s) = k \<and> distinct s \<and> set s \<subseteq> set l"
proof -
  from assms(1) have k: "0 \<le> k" "k \<le> int (length l)" and sl: "sample_loop l (nat k) g = (s, g')"
    by (auto simp: sample_def split: if_splits)
  from k have "nat k \<le> length l" by simp
  from sample_loop_props [OF assms(2) this sl] k show ?thesis by simp
qed

lemma sample_fails: "(sample l k g = Inl e) = (e = ValueError \<and> (k < 0 \<or> int (length l) < k))"
  by (auto simp: sample_def)

lemma randint_fails: "(randint a b g = Inl e) = (e = ValueError \<and> b < a)"
  by (auto simp: randint_def Let_def split: prod.splits)

lemma Agent_setup_Inr:
  assumes "Agent_setup ps env a g = Inr (a', g')"
  shows "\<exists>i v. agent_id a = Some i \<and> 0 \<le> i \<and> i < int (length (population env)) \<and>
           agent_id a' = Some i \<and> cur_data a' = Some (of_int v) \<and>
           next_data a' = next_data a \<and> process_time a' = p_process_time ps \<and>
           distinct (neighbors a') \<and> int (length (neighbors a')) = p_neighbors ps \<and>
           set (neighbors a') \<subseteq> {x. 0 \<le> x \<and> x < int (length (population env)) \<and> x \<noteq> i}"
proof -
  from assms obtain v g1 where r: "randint (- p_max ps) (p_max ps) g = Inr (v, g1)"
    by (auto simp: Agent_setup_def split: sum.splits)
  from assms r obtain i where i: "agent_id a = Some i"
    by (auto simp: Agent_setup_def Let_def split: option.splits)
  from assms r i have range: "0 \<le> i \<and> i < int (length (population env))"
    by (auto simp: Agent_setup_def Let_def list_remove_range split: if_splits)
  with assms r i obtain s where
    s: "sample (remove1 i (map int [0..<length (population env)])) (p_neighbors ps) g1 = Inr (s, g')"
    and a': "a' = a\<lparr>cur_data := Some (of_int v), process_time := p_process_time ps, neighbors := s\<rparr>"
    by (auto simp: Agent_setup_def Let_def list_remove_range split: sum.splits)
  have "distinct (remove1 i (map int [0..<length (population env)]))"
    by (simp add: distinct_range)
  from sample_Inr [OF s this]
  have "int (length s) = p_neighbors ps" "distinct s"
    "set s \<subseteq> {x. 0 \<le> x \<and> x < int (length (population env)) \<and> x \<noteq> i}"
    by (simp_all add: set_remove1_range)
  with i range a' show ?thesis by auto
qed

text \<open>
  Claim C5, as the code has it. For an agent that is registered in the environment (its
  id is a position of the population) and a value range that is not empty, \<open>setup\<close>
  raises (ValueError, from \<open>random.sample\<close>) when the neighbour count is negative or
  greater than the population size minus 1, and succeeds for every count from 0 up to
  and including the population size minus 1. It samples from the agents registered at
  the time of the call, however many are still to come.
\<close>

theorem setup_sample_size:
  assumes "agent_id a = Some i" and "0 \<le> i" and "i < int (length (population env))"
    and "0 \<le> p_max ps"
  shows "(p_neighbors ps < 0 \<or> int (length (population env)) - 1 < p_neighbors ps \<longrightarrow>
            Agent_setup ps env a g = Inl ValueError) \<and>
         (0 \<le> p_neighbors ps \<and> p_neighbors ps \<le> int (length (population env)) - 1 \<longrightarrow>
            (\<exists>a' g'. Agent_setup ps env a g = Inr (a', g')))"
proof -
  from assms(4) obtain v g1 where r: "randint (- p_max ps) (p_max ps) g = Inr (v, g1)"
    by (cases "randint (- p_max ps) (p_max ps) g") (auto simp: randint_fails)
  have len: "int (length (remove1 i (map int [0..<length (population env)]))) =
      int (length (population env)) - 1"
    using assms(2,3) by (rule length_remove1_range)
  show ?thesis
  proof (cases "sample (remove1 i (map int [0..<length (population env)])) (p_neighbors ps) g1")
    case (Inl e)
    then have "e = ValueError"
      and "p_neighbors ps < 0 \<or> int (length (population env)) - 1 < p_neighbors ps"
      using len by (simp_all add: sample_fails)
    with Inl r assms(1-3) show ?thesis
      by (auto simp: Agent_setup_def Let_def list_remove_range)
  next
    case (Inr sg)
    then have "\<not> (p_neighbors ps < 0 \<or> int (length (population env)) - 1 < p_neighbors ps)"
      using len by (auto simp: sample_def split: if_splits)
    with Inr r assms(1-3) show ?thesis
      by (cases sg) (auto simp: Agent_setup_def Let_def list_remove_range)
  qed
qed

lemma Agent_setup_neighbor_inv:
  assumes "Agent_setup ps env a g = Inr (a', g')"
  shows "neighbor_inv (p_neighbors ps) (length (population env)) a' \<and> cur_data a' \<noteq> None \<and>
         agent_id a' = agent_id a"
  using Agent_setup_Inr [OF assms] by (auto simp: neighbor_inv_def list_all_iff)

lemma Agent_setup_length_only:
  assumes "length (population env') = length (population env)"
  shows "Agent_setup ps env' a g = Agent_setup ps env a g"
  unfolding Agent_setup_def assms ..

lemma setup_slots_Inr:
  assumes "setup_slots ps js env g = Inr (env1, g1)"
    and "\<forall>j\<in>set js. j < length (population env)"
  shows "length (population env1) = length (population env) \<and>
         my_special_stuff env1 = my_special_stuff env \<and>
         map agent_id (population env1) = map agent_id (population env) \<and>
         (\<forall>j < length (population env).
            if j \<in> set js
            then neighbor_inv (p_neighbors ps) (length (population env)) (population env1 ! j) \<and>
                 cur_data (population env1 ! j) \<noteq> None
            else population env1 ! j = population env ! j)"
  using assms
proof (induction js arbitrary: env g)
  case Nil
  then show ?case by simp
next
  case (Cons j js)
  from Cons.prems(1) obtain a g' where
    a: "Agent_setup ps env (population env ! j) g = Inr (a, g')"
    by (auto split: sum.splits)
  define env' where "env' = env\<lparr>population := (population env)[j := a]\<rparr>"
  from Cons.prems(1) a have rest: "setup_slots ps js env' g' = Inr (env1, g1)"
    by (simp add: env'_def)
  have len: "length (population env') = length (population env)"
    by (simp add: env'_def)
  from Cons.prems(2) have j: "j < length (population env)" by simp
  from Cons.prems(2) have "\<forall>j\<in>set js. j < length (population env')" by (simp add: len)
  note IH = Cons.IH [OF rest this, unfolded len]
  from IH have ih: "length (population env1) = length (population env)"
    "my_special_stuff env1 = my_special_stuff env'"
    "map agent_id (population env1) = map agent_id (population env')"
    by simp_all
  have ih4: "neighbor_inv (p_neighbors ps) (length (population env)) (population env1 ! m) \<and>
       cur_data (population env1 ! m) \<noteq> None"
    if "m < length (population env)" and "m \<in> set js" for m
    using IH that by auto
  have ih5: "population env1 ! m = population env' ! m"
    if "m < length (population env)" and "m \<notin> set js" for m
    using IH that by auto
  from Agent_setup_neighbor_inv [OF a]
  have inv: "neighbor_inv (p_neighbors ps) (length (population env)) a" "cur_data a \<noteq> None"
    "agent_id a = agent_id (population env ! j)"
    by simp_all
  have ids: "map agent_id (population env') = map agent_id (population env)"
    using j inv(3) by (simp add: env'_def map_update list_update_same_conv)
  have slot: "neighbor_inv (p_neighbors ps) (length (population env)) (population env1 ! m) \<and>
       cur_data (population env1 ! m) \<noteq> None"
    if "m < length (population env)" and "m \<in> set (j # js)" for m
  proof (cases "m \<in> set js")
    case True
    with that ih4 show ?thesis by simp
  next
    case False
    with that have "m = j" by simp
    with False j ih5 [of j] inv show ?thesis by (simp add: env'_def)
  qed
  have other: "population env1 ! m = population env ! m"
    if "m < length (population env)" and "m \<notin> set (j # js)" for m
    using that ih5 [of m] by (simp add: env'_def)
  from ih(1,2) ids ih(3) slot other show ?case
    by (simp add: env'_def)
qed

lemma setup_all_Inr:
  assumes "setup_all ps env g = Inr (env1, g1)"
  shows "length (population env1) = length (population env) \<and>
         my_special_stuff env1 = my_special_stuff env \<and>
         map agent_id (population env1) = map agent_id (population env) \<and>
         (\<forall>j < length (population env).
            neighbor_inv (p_neighbors ps) (length (population env)) (population env1 ! j) \<and>
            cur_data (population env1 ! j) \<noteq> None)"
proof -
  from assms have "setup_slots ps [0..<length (population env)] env g = Inr (env1, g1)"
    by (simp add: setup_all_def)
  from setup_slots_Inr [OF this] show ?thesis by simp
qed

lemma setup_all_neighbors_ok:
  assumes "setup_all ps env g = Inr (env1, g1)"
  shows "neighbors_ok (p_neighbors ps) env1"
  using setup_all_Inr [OF assms] by (simp add: neighbors_ok_def list_all_length)

lemma setup_all_ready:
  assumes "setup_all ps env g = Inr (env1, g1)" and "ids_ok env" and "my_special_stuff env \<noteq> 0"
  shows "ready env1"
proof -
  note s = setup_all_Inr [OF assms(1)]
  from s assms(2) have "ids_ok env1" by (simp add: ids_ok_def)
  moreover from s assms(3) have "my_special_stuff env1 \<noteq> 0" by simp
  moreover have "list_all (\<lambda>x. - int (length (population env1)) \<le> x \<and>
                                x < int (length (population env1))) (neighbors (population env1 ! j))"
    if "j < length (population env1)" for j
  proof -
    from s that have "neighbor_inv (p_neighbors ps) (length (population env1)) (population env1 ! j)"
      by simp
    then show ?thesis by (auto simp: neighbor_inv_def list_all_iff)
  qed
  ultimately show ?thesis using s by (simp add: ready_def list_all_length)
qed

lemma Agent_setup_succeeds:
  assumes "agent_id a = Some i" and "0 \<le> i" and "i < int (length (population env))"
    and "0 \<le> p_max ps" and "0 \<le> p_neighbors ps"
    and "p_neighbors ps \<le> int (length (population env)) - 1"
  shows "\<exists>a' g'. Agent_setup ps env a g = Inr (a', g')"
proof -
  from assms(4) obtain v g1 where r: "randint (- p_max ps) (p_max ps) g = Inr (v, g1)"
    by (cases "randint (- p_max ps) (p_max ps) g") (auto simp: randint_fails)
  have len: "int (length (remove1 i (map int [0..<length (population env)]))) =
      int (length (population env)) - 1"
    using assms(2,3) by (rule length_remove1_range)
  with assms(5,6) obtain s g2 where
    "sample (remove1 i (map int [0..<length (population env)])) (p_neighbors ps) g1 = Inr (s, g2)"
    by (cases "sample_loop (remove1 i (map int [0..<length (population env)])) (nat (p_neighbors ps)) g1")
      (simp add: sample_def)
  with r assms(1-3) show ?thesis
    by (simp add: Agent_setup_def Let_def list_remove_range)
qed

lemma setup_slots_succeeds:
  assumes "ids_ok env" and "\<forall>j\<in>set js. j < length (population env)"
    and "0 \<le> p_max ps" and "0 \<le> p_neighbors ps"
    and "p_neighbors ps \<le> int (length (population env)) - 1"
  shows "\<exists>env1 g1. setup_slots ps js env g = Inr (env1, g1)"
  using assms(1,2,5)
proof (induction js arbitrary: env g)
  case Nil
  then show ?case by simp
next
  case (Cons j js)
  from Cons.prems(2) have j: "j < length (population env)" by simp
  from ids_ok_nth [OF Cons.prems(1) j] have id: "agent_id (population env ! j) = Some (int j)" .
  from Agent_setup_succeeds [OF id _ _ assms(3,4) Cons.prems(3), of g] j
  obtain a g' where a: "Agent_setup ps env (population env ! j) g = Inr (a, g')" by auto
  let ?env' = "env\<lparr>population := (population env)[j := a]\<rparr>"
  from Agent_setup_neighbor_inv [OF a] id have "agent_id a = Some (int j)" by simp
  with Cons.prems(1) j have "ids_ok ?env'"
    by (simp add: ids_ok_def map_update list_update_same_conv)
  moreover from Cons.prems(2) have "\<forall>j\<in>set js. j < length (population ?env')" by simp
  moreover from Cons.prems(3) have "p_neighbors ps \<le> int (length (population ?env')) - 1" by simp
  ultimately have "\<exists>env1 g1. setup_slots ps js ?env' g' = Inr (env1, g1)" by (rule Cons.IH)
  with a show ?case by simp
qed

lemma setup_all_succeeds:
  assumes "ids_ok env" and "0 \<le> p_max ps" and "0 \<le> p_neighbors ps"
    and "p_neighbors ps \<le> int (length (population env)) - 1"
  shows "\<exists>env1 g1. setup_all ps env g = Inr (env1, g1)"
  unfolding setup_all_def using assms(1) _ assms(2-4) by (rule setup_slots_succeeds) simp

subsection \<open>The pool\<close>

text \<open>
  The chunks put together are the list again, so \<open>p.map\<close> returns what working off
  the whole list from the left returns, whenever that succeeds, and raises whenever that
  raises: neither the number of processes nor the order of completion shows in a result.
\<close>

lemma chunksize_pos: "0 < n \<Longrightarrow> 0 < chunksize n procs"
proof -
  assume n: "0 < n"
  show ?thesis
  proof (cases "n mod (procs * 4) = 0")
    case True
    with mult_div_mod_eq [of "procs * 4" n] have "(procs * 4) * (n div (procs * 4)) = n"
      by simp
    with n have "0 < n div (procs * 4)" by (cases "n div (procs * 4)") simp_all
    with True n show ?thesis by (simp add: chunksize_def)
  next
    case False
    with n show ?thesis by (simp add: chunksize_def Let_def)
  qed
qed

lemma concat_chunks: "0 < c \<Longrightarrow> concat (chunks c xs) = xs"
proof (induction c xs rule: chunks.induct)
  case (1 c xs)
  show ?case
  proof (cases "xs = []")
    case True
    then show ?thesis by (simp add: chunks.simps [of c "[]"])
  next
    case False
    with "1.prems" "1.IH" have "concat (chunks c (drop c xs)) = drop c xs" by simp
    with False "1.prems" show ?thesis by (simp add: chunks.simps [of c xs])
  qed
qed

lemma concat_chunks_chunksize: "concat (chunks (chunksize (length xs) procs) xs) = xs"
proof (cases "xs = []")
  case True
  then show ?thesis by (simp add: chunks.simps [of _ "[]"])
next
  case False
  then have "0 < chunksize (length xs) procs" by (simp add: chunksize_pos)
  then show ?thesis by (rule concat_chunks)
qed

lemma mapstar_append:
  "mapstar f (xs @ ys) =
     (case mapstar f xs of
        Inl e \<Rightarrow> Inl e
      | Inr us \<Rightarrow> (case mapstar f ys of Inl e \<Rightarrow> Inl e | Inr vs \<Rightarrow> Inr (us @ vs)))"
  by (induction xs) (auto split: sum.splits)

lemma mapstar_Inr_iff: "(mapstar f xs = Inr ys) = (map f xs = map Inr ys)"
proof (induction xs arbitrary: ys)
  case Nil
  then show ?case by auto
next
  case (Cons x xs)
  show ?case
  proof (cases ys)
    case Nil
    then show ?thesis by (auto split: sum.splits)
  next
    case (Cons y ys')
    with Cons.IH [of ys'] show ?thesis by (auto split: sum.splits)
  qed
qed

lemma mapstar_Inl_iff: "(\<exists>e. mapstar f xs = Inl e) = (\<exists>x\<in>set xs. \<exists>e. f x = Inl e)"
  by (induction xs) (auto split: sum.splits)

lemma earliest_None: "(earliest t fs = None) = (fs = [])"
  by (induction fs) (auto split: option.splits prod.splits)

lemma earliest_mem: "earliest t fs = Some (i, e) \<Longrightarrow> (i, e) \<in> set fs"
  by (induction fs arbitrary: i e) (auto split: option.splits prod.splits if_splits)

lemma chunks_all_succeed:
  "mapstar f (concat chs) = Inr ys \<Longrightarrow>
   failures i (map (mapstar f) chs) = [] \<and> concat (successes (map (mapstar f) chs)) = ys"
proof (induction chs arbitrary: ys i)
  case Nil
  then show ?case by simp
next
  case (Cons c chs)
  from Cons.prems obtain us vs where
    us: "mapstar f c = Inr us" and vs: "mapstar f (concat chs) = Inr vs" and ys: "ys = us @ vs"
    by (auto simp: mapstar_append split: sum.splits)
  from Cons.IH [OF vs, of "Suc i"] us ys show ?case by simp
qed

lemma chunks_some_fails:
  "mapstar f (concat chs) = Inl e \<Longrightarrow> failures i (map (mapstar f) chs) \<noteq> []"
proof (induction chs arbitrary: i)
  case Nil
  then show ?case by simp
next
  case (Cons c chs)
  show ?case
  proof (cases "mapstar f c")
    case (Inl e')
    then show ?thesis by simp
  next
    case (Inr us)
    with Cons.prems have "mapstar f (concat chs) = Inl e"
      by (auto simp: mapstar_append split: sum.splits)
    from Cons.IH [OF this, of "Suc i"] Inr show ?thesis by simp
  qed
qed

lemma pool_map_no_process: "processes < 1 \<Longrightarrow> pool_map processes t f xs = Inl ValueError"
  by (simp add: pool_map_def)

lemma pool_map_succeeds:
  assumes "1 \<le> processes" and "mapstar f xs = Inr ys"
  shows "pool_map processes t f xs = Inr ys"
proof -
  let ?chs = "chunks (chunksize (length xs) (nat processes)) xs"
  from assms(2) have "mapstar f (concat ?chs) = Inr ys"
    by (simp add: concat_chunks_chunksize)
  from chunks_all_succeed [OF this, of 0] assms(1) show ?thesis
    by (simp add: pool_map_def Let_def)
qed

lemma pool_map_fails:
  assumes "mapstar f xs = Inl e"
  shows "\<exists>e'. pool_map processes t f xs = Inl e'"
proof (cases "processes < 1")
  case True
  then show ?thesis by (simp add: pool_map_def)
next
  case False
  let ?chs = "chunks (chunksize (length xs) (nat processes)) xs"
  from assms have "mapstar f (concat ?chs) = Inl e"
    by (simp add: concat_chunks_chunksize)
  from chunks_some_fails [OF this, of 0]
  have "earliest t (failures 0 (map (mapstar f) ?chs)) \<noteq> None"
    by (simp add: earliest_None)
  then obtain i e' where "earliest t (failures 0 (map (mapstar f) ?chs)) = Some (i, e')"
    by auto
  with False show ?thesis by (simp add: pool_map_def Let_def)
qed

lemma pool_map_Inr_iff:
  "(pool_map processes t f xs = Inr ys) = (1 \<le> processes \<and> mapstar f xs = Inr ys)"
proof
  assume p: "pool_map processes t f xs = Inr ys"
  then have one: "1 \<le> processes" by (auto simp: pool_map_def split: if_splits)
  show "1 \<le> processes \<and> mapstar f xs = Inr ys"
  proof (cases "mapstar f xs")
    case (Inl e)
    from pool_map_fails [OF this, of processes t] p show ?thesis by auto
  next
    case (Inr zs)
    from pool_map_succeeds [OF one this, of t] p one Inr show ?thesis by simp
  qed
next
  assume "1 \<le> processes \<and> mapstar f xs = Inr ys"
  then show "pool_map processes t f xs = Inr ys" by (simp add: pool_map_succeeds)
qed

subsection \<open>Commit\<close>

text \<open>
  A commit writes \<open>cur_data\<close> and nothing else. When the results carry the ids
  \<open>k, k + 1, \<dots>\<close> in this order, each slot gets the value with its id.
\<close>

lemma frame_of_slot:
  "j < length (population env) \<Longrightarrow>
   frame_of (env\<lparr>population := (population env)[j := do_update (population env ! j) data]\<rparr>) =
   frame_of env"
  by (simp add: frame_of_def do_update_def map_update list_update_same_conv split: option.split)

lemma commit_frame:
  "commit env rs = Inr env' \<or> commit env rs = Inl (e, env') \<Longrightarrow> frame_of env' = frame_of env"
proof (induction rs arbitrary: env)
  case Nil
  then show ?case by auto
next
  case (Cons r rs)
  obtain i d where r: "r = (i, d)" by (cases r)
  show ?case
  proof (cases "list_index (population env) i")
    case (Inl e')
    with Cons.prems r show ?thesis by auto
  next
    case (Inr j)
    then have j: "j < length (population env)" by (rule list_index_bound)
    let ?env1 = "env\<lparr>population := (population env)[j := do_update (population env ! j) (Some d)]\<rparr>"
    from Cons.prems r Inr have "commit ?env1 rs = Inr env' \<or> commit ?env1 rs = Inl (e, env')"
      by simp
    then have "frame_of env' = frame_of ?env1" by (rule Cons.IH)
    with j show ?thesis by (simp add: frame_of_slot)
  qed
qed

lemma frame_of_length:
  "frame_of env' = frame_of env \<Longrightarrow> length (population env') = length (population env)"
  by (drule arg_cong [where f = "\<lambda>e. length (population e)"]) (simp add: frame_of_def)

lemma frame_of_special:
  "frame_of env' = frame_of env \<Longrightarrow> my_special_stuff env' = my_special_stuff env"
  by (drule arg_cong [where f = my_special_stuff]) (simp add: frame_of_def)

lemma frame_of_fields:
  assumes "frame_of env' = frame_of env"
  shows "map neighbors (population env') = map neighbors (population env) \<and>
         map agent_id (population env') = map agent_id (population env) \<and>
         map next_data (population env') = map next_data (population env) \<and>
         map process_time (population env') = map process_time (population env)"
proof -
  from assms have eq: "map (\<lambda>a. a\<lparr>cur_data := None\<rparr>) (population env') =
      map (\<lambda>a. a\<lparr>cur_data := None\<rparr>) (population env)"
    by (drule_tac arg_cong [where f = population]) (simp add: frame_of_def)
  have "map neighbors (map (\<lambda>a. a\<lparr>cur_data := None\<rparr>) (population env')) =
      map neighbors (map (\<lambda>a. a\<lparr>cur_data := None\<rparr>) (population env))"
    "map agent_id (map (\<lambda>a. a\<lparr>cur_data := None\<rparr>) (population env')) =
      map agent_id (map (\<lambda>a. a\<lparr>cur_data := None\<rparr>) (population env))"
    "map next_data (map (\<lambda>a. a\<lparr>cur_data := None\<rparr>) (population env')) =
      map next_data (map (\<lambda>a. a\<lparr>cur_data := None\<rparr>) (population env))"
    "map process_time (map (\<lambda>a. a\<lparr>cur_data := None\<rparr>) (population env')) =
      map process_time (map (\<lambda>a. a\<lparr>cur_data := None\<rparr>) (population env))"
    by (simp_all only: eq)
  then show ?thesis by (simp add: comp_def)
qed

lemma commit_in_order:
  assumes "\<forall>m < length rs. fst (rs ! m) = int (k + m)"
    and "k + length rs \<le> length (population env)"
  shows "commit env rs =
     Inr (env\<lparr>population := take k (population env) @
            map (\<lambda>(a, r). a\<lparr>cur_data := Some (snd r)\<rparr>) (zip (drop k (population env)) rs) @
            drop (k + length rs) (population env)\<rparr>)"
  using assms
proof (induction rs arbitrary: k env)
  case Nil
  then show ?case by simp
next
  case (Cons r rs)
  obtain i d where r: "r = (i, d)" by (cases r)
  from Cons.prems(1) r have i: "i = int k" by auto
  have rest: "\<forall>m < length rs. fst (rs ! m) = int (Suc k + m)"
  proof (intro allI impI)
    fix m assume "m < length rs"
    then have "Suc m < length (r # rs)" by simp
    with Cons.prems(1) have "fst ((r # rs) ! Suc m) = int (k + Suc m)" by blast
    then show "fst (rs ! m) = int (Suc k + m)" by simp
  qed
  from Cons.prems(2) have k: "k < length (population env)" by simp
  let ?x = "(population env ! k)\<lparr>cur_data := Some d\<rparr>"
  let ?env1 = "env\<lparr>population := (population env)[k := ?x]\<rparr>"
  from Cons.prems(2) have "Suc k + length rs \<le> length (population ?env1)" by simp
  note IH = Cons.IH [OF rest this]
  have step: "commit env (r # rs) = commit ?env1 rs"
    using r i k by (simp add: list_index_nat do_update_def)
  have t: "take (Suc k) ((population env)[k := ?x]) = take k (population env) @ [?x]"
    using k by (simp add: take_Suc_conv_app_nth)
  have d: "drop k (population env) = population env ! k # drop (Suc k) (population env)"
    using k by (simp add: Cons_nth_drop_Suc)
  show ?case
    unfolding step IH using r k by (simp add: t d)
qed

subsection \<open>One round\<close>

text \<open>
  A round that commits is the commit of the results of \<open>update\<close> on the round-start
  environment; a round in which an \<open>update\<close> raises leaves the environment alone.
\<close>

lemma update_Inr:
  "update env a = Inr (i, v) \<Longrightarrow>
   agent_id a = Some i \<and> (\<exists>a'. calculate_update a env = Inr (a', v))"
  by (auto simp: update_def split: option.splits sum.splits)

lemma update_fails:
  "calculate_update a env = Inl e \<Longrightarrow> \<exists>e'. update env a = Inl e'"
  by (auto simp: update_def split: option.splits)

lemma mapstar_nth:
  assumes "mapstar f xs = Inr ys"
  shows "length ys = length xs \<and> (\<forall>m < length xs. f (xs ! m) = Inr (ys ! m))"
proof -
  from assms have eq: "map f xs = map Inr ys" by (simp add: mapstar_Inr_iff)
  then have len: "length ys = length xs" by (metis length_map)
  have "f (xs ! m) = Inr (ys ! m)" if "m < length xs" for m
  proof -
    from that have "map f xs ! m = f (xs ! m)" by simp
    moreover from that len have "map Inr ys ! m = Inr (ys ! m)" by simp
    ultimately show ?thesis using eq by metis
  qed
  with len show ?thesis by simp
qed

lemma do_round_Inr:
  "(do_round processes t env = Inr env') =
   (\<exists>rs. 1 \<le> processes \<and> mapstar (update env) (population env) = Inr rs \<and>
         commit env rs = Inr env')"
proof (cases "pool_map processes t (update env) (population env)")
  case (Inl e)
  then have "\<not> (1 \<le> processes \<and> mapstar (update env) (population env) = Inr rs)" for rs
    using pool_map_Inr_iff [of processes t "update env" "population env" rs] by simp
  with Inl show ?thesis by (auto simp: do_round_def)
next
  case (Inr rs)
  then have "1 \<le> processes \<and> mapstar (update env) (population env) = Inr rs"
    by (simp add: pool_map_Inr_iff)
  with Inr show ?thesis by (auto simp: do_round_def)
qed

lemma do_round_seq:
  "1 \<le> processes \<Longrightarrow> mapstar (update env) (population env) = Inr rs \<Longrightarrow>
   do_round processes t env = commit env rs"
  by (simp add: do_round_def pool_map_succeeds)

lemma do_round_pool_fails:
  "mapstar (update env) (population env) = Inl e \<Longrightarrow>
   \<exists>e'. do_round processes t env = Inl (e', env)"
  using pool_map_fails [of "update env" "population env" e processes t]
  by (auto simp: do_round_def)

lemma commit_all:
  assumes "ids_ok env" and "mapstar (update env) (population env) = Inr rs"
  shows "commit env rs =
     Inr (env\<lparr>population :=
            map (\<lambda>(a, r). a\<lparr>cur_data := Some (snd r)\<rparr>) (zip (population env) rs)\<rparr>)"
proof -
  from mapstar_nth [OF assms(2)]
  have len: "length rs = length (population env)"
    and nth: "\<And>m. m < length (population env) \<Longrightarrow> update env (population env ! m) = Inr (rs ! m)"
    by simp_all
  have "fst (rs ! m) = int (0 + m)" if "m < length rs" for m
  proof -
    from that len have m: "m < length (population env)" by simp
    obtain i v where iv: "rs ! m = (i, v)" by (cases "rs ! m")
    with nth [OF m] have "agent_id (population env ! m) = Some i"
      by (simp add: update_Inr)
    with ids_ok_nth [OF assms(1) m] iv show ?thesis by simp
  qed
  then have "\<forall>m < length rs. fst (rs ! m) = int (0 + m)" by simp
  moreover from len have "0 + length rs \<le> length (population env)" by simp
  ultimately show ?thesis
    using commit_in_order [of rs 0 env] len by simp
qed

lemma do_round_slots:
  assumes "ids_ok env" and "do_round processes t env = Inr env'"
    and "j < length (population env)"
  shows "\<exists>a' v. calculate_update (population env ! j) env = Inr (a', v) \<and>
           population env' ! j = (population env ! j)\<lparr>cur_data := Some v\<rparr>"
proof -
  from assms(2) obtain rs where
    rs: "mapstar (update env) (population env) = Inr rs" and c: "commit env rs = Inr env'"
    by (auto simp: do_round_Inr)
  from mapstar_nth [OF rs] assms(3)
  have len: "length rs = length (population env)"
    and u: "update env (population env ! j) = Inr (rs ! j)"
    by simp_all
  obtain i v where iv: "rs ! j = (i, v)" by (cases "rs ! j")
  with u obtain a' where "calculate_update (population env ! j) env = Inr (a', v)"
    by (auto dest: update_Inr)
  moreover from c commit_all [OF assms(1) rs] assms(3) len iv
  have "population env' ! j = (population env ! j)\<lparr>cur_data := Some v\<rparr>"
    by auto
  ultimately show ?thesis by blast
qed

lemma sum_map_agree:
  assumes "\<forall>x\<in>set xs. lookup_cur_data other x = lookup_cur_data env x"
  shows "sum_map other acc xs = sum_map env acc xs"
  using assms
proof (induction xs arbitrary: acc)
  case Nil
  then show ?case by simp
next
  case (Cons x xs)
  from Cons.prems have x: "lookup_cur_data other x = lookup_cur_data env x"
    by simp
  from Cons.prems have "\<And>acc. sum_map other acc xs = sum_map env acc xs"
    by (intro Cons.IH) simp
  with x show ?case
    by (simp split: sum.splits option.splits)
qed

lemma calculate_update_agree:
  assumes "my_special_stuff other = my_special_stuff env"
    and "\<forall>x\<in>set (neighbors a). lookup_cur_data other x = lookup_cur_data env x"
  shows "calculate_update a other = calculate_update a env"
  unfolding calculate_update_def assms(1) sum_map_agree [OF assms(2)] ..

lemma commit_values:
  assumes "commit env rs = Inr env'" and "j < length (population env)"
  shows "population env' ! j = population env ! j \<or>
         (\<exists>r\<in>set rs. population env' ! j = (population env ! j)\<lparr>cur_data := Some (snd r)\<rparr>)"
  using assms
proof (induction rs arbitrary: env)
  case Nil
  then show ?case by simp
next
  case (Cons r rs)
  obtain i d where r: "r = (i, d)" by (cases r)
  with Cons.prems(1) obtain k where k: "list_index (population env) i = Inr k"
    by (cases "list_index (population env) i") auto
  let ?env1 = "env\<lparr>population := (population env)[k := do_update (population env ! k) (Some d)]\<rparr>"
  from Cons.prems(1) r k have c: "commit ?env1 rs = Inr env'" by simp
  from Cons.prems(2) have "j < length (population ?env1)" by simp
  from Cons.IH [OF c this]
  have ih: "population env' ! j = population ?env1 ! j \<or>
         (\<exists>r\<in>set rs. population env' ! j = (population ?env1 ! j)\<lparr>cur_data := Some (snd r)\<rparr>)" .
  show ?case
  proof (cases "j = k")
    case True
    with Cons.prems(2) have "population ?env1 ! j = (population env ! j)\<lparr>cur_data := Some d\<rparr>"
      by (simp add: do_update_def)
    with ih r show ?thesis by auto
  next
    case False
    then have "population ?env1 ! j = population env ! j" by simp
    with ih show ?thesis by auto
  qed
qed

lemma mapstar_results:
  assumes "mapstar f xs = Inr ys" and "y \<in> set ys"
  shows "\<exists>x\<in>set xs. f x = Inr y"
proof -
  from assms(2) obtain m where m: "m < length ys" "ys ! m = y"
    by (auto simp: in_set_conv_nth)
  from mapstar_nth [OF assms(1)] m have "m < length xs" "f (xs ! m) = Inr y" by simp_all
  then show ?thesis by (metis nth_mem)
qed

lemma do_round_values:
  assumes "do_round processes t env = Inr env'" and "j < length (population env)"
  shows "population env' ! j = population env ! j \<or>
         (\<exists>a\<in>set (population env). \<exists>a' v. calculate_update a env = Inr (a', v) \<and>
            population env' ! j = (population env ! j)\<lparr>cur_data := Some v\<rparr>)"
proof -
  from assms(1) obtain rs where
    rs: "mapstar (update env) (population env) = Inr rs" and c: "commit env rs = Inr env'"
    by (auto simp: do_round_Inr)
  from commit_values [OF c assms(2)] show ?thesis
  proof
    assume "population env' ! j = population env ! j"
    then show ?thesis by simp
  next
    assume "\<exists>r\<in>set rs. population env' ! j = (population env ! j)\<lparr>cur_data := Some (snd r)\<rparr>"
    then obtain r where r: "r \<in> set rs"
      "population env' ! j = (population env ! j)\<lparr>cur_data := Some (snd r)\<rparr>" by blast
    from mapstar_results [OF rs r(1)] obtain a where
      a: "a \<in> set (population env)" "update env a = Inr r" by blast
    obtain i v where "r = (i, v)" by (cases r)
    with a(2) r(2) update_Inr [of env a i v] a(1) show ?thesis by auto
  qed
qed

subsection \<open>Runs\<close>

text \<open>
  In an environment that is \<open>ready\<close> every round of the embedding commits and leads to
  an environment that is \<open>ready\<close> again. Runs with different numbers of processes and orders of
  completion print the same reports and end in the same environment.
\<close>

lemma ready_nth:
  assumes "ready env" and "j < length (population env)"
  shows "cur_data (population env ! j) \<noteq> None"
    and "\<forall>x\<in>set (neighbors (population env ! j)).
           - int (length (population env)) \<le> x \<and> x < int (length (population env))"
proof -
  from assms(2) have "population env ! j \<in> set (population env)" by simp
  with assms(1) show "cur_data (population env ! j) \<noteq> None"
    and "\<forall>x\<in>set (neighbors (population env ! j)).
           - int (length (population env)) \<le> x \<and> x < int (length (population env))"
    by (simp_all add: ready_def list_all_iff)
qed

lemma sum_map_succeeds:
  assumes "\<forall>x\<in>set xs. - int (length (population env)) \<le> x \<and> x < int (length (population env))"
    and "\<forall>j < length (population env). cur_data (population env ! j) \<noteq> None"
  shows "\<exists>s. sum_map env acc xs = Inr s"
  using assms(1)
proof (induction xs arbitrary: acc)
  case Nil
  then show ?case by simp
next
  case (Cons x xs)
  from Cons.prems have "list_index (population env) x \<noteq> Inl IndexError"
    by (simp add: list_index_fails)
  then obtain j where j: "list_index (population env) x = Inr j"
    by (auto simp: list_index_def Let_def split: if_splits)
  then have "j < length (population env)" by (rule list_index_bound)
  with assms(2) obtain d where d: "cur_data (population env ! j) = Some d" by auto
  from Cons.prems have "\<exists>s. sum_map env (acc + d) xs = Inr s" by (intro Cons.IH) simp
  with j d show ?case by (simp add: lookup_cur_data_def lookup_def)
qed

lemma update_ready:
  assumes "ready env" and "j < length (population env)"
  shows "\<exists>v. update env (population env ! j) = Inr (int j, v)"
proof -
  from assms(1) have ids: "ids_ok env" and sp: "my_special_stuff env \<noteq> 0"
    by (simp_all add: ready_def)
  have all: "\<forall>j < length (population env). cur_data (population env ! j) \<noteq> None"
    using assms(1) by (simp add: ready_nth(1))
  from sum_map_succeeds [OF ready_nth(2) [OF assms] all, of 0]
  obtain s where s: "sum_map env 0 (neighbors (population env ! j)) = Inr s" by blast
  from all assms(2) obtain c where c: "cur_data (population env ! j) = Some c" by auto
  from ids_ok_nth [OF ids assms(2)] s c sp show ?thesis
    by (simp add: update_def calculate_update_def Let_def)
qed

lemma mapstar_ready:
  assumes "ready env"
  shows "\<exists>rs. mapstar (update env) (population env) = Inr rs"
proof (cases "mapstar (update env) (population env)")
  case (Inl e)
  then have "\<exists>x\<in>set (population env). \<exists>e. update env x = Inl e"
    using mapstar_Inl_iff [of "update env" "population env"] by blast
  then obtain j e' where "j < length (population env)" "update env (population env ! j) = Inl e'"
    by (auto simp: in_set_conv_nth)
  with update_ready [OF assms, of j] show ?thesis by auto
next
  case (Inr rs)
  then show ?thesis by blast
qed

lemma do_round_frame:
  assumes "do_round processes t env = Inr env' \<or> do_round processes t env = Inl (e, env')"
  shows "frame_of env' = frame_of env"
proof (cases "pool_map processes t (update env) (population env)")
  case (Inl e')
  with assms show ?thesis by (auto simp: do_round_def)
next
  case (Inr rs)
  with assms have "commit env rs = Inr env' \<or> commit env rs = Inl (e, env')"
    by (simp add: do_round_def)
  then show ?thesis by (rule commit_frame)
qed

lemma ready_step:
  assumes "ready env" and "frame_of env' = frame_of env"
    and "\<forall>j < length (population env). cur_data (population env' ! j) \<noteq> None"
  shows "ready env'"
proof -
  note len = frame_of_length [OF assms(2)]
  note f = frame_of_fields [OF assms(2)]
  from assms(1) f len have "ids_ok env'" by (simp add: ids_ok_def ready_def)
  moreover from assms(1) have "my_special_stuff env' \<noteq> 0"
    by (simp add: ready_def frame_of_special [OF assms(2)])
  moreover have "neighbors (population env' ! j) = neighbors (population env ! j)"
    if "j < length (population env)" for j
  proof -
    from f have "map neighbors (population env') ! j = map neighbors (population env) ! j"
      by simp
    with that len show ?thesis by simp
  qed
  ultimately show ?thesis
    using assms(1,3) len by (simp add: ready_def list_all_length)
qed

lemma do_round_ready:
  assumes "ready env" and "1 \<le> processes"
  shows "\<exists>env'. do_round processes t env = Inr env' \<and> ready env'"
proof -
  from assms(1) have ids: "ids_ok env" by (simp add: ready_def)
  from mapstar_ready [OF assms(1)] obtain rs where
    rs: "mapstar (update env) (population env) = Inr rs" by blast
  from commit_all [OF ids rs] obtain env' where c: "commit env rs = Inr env'" by blast
  with rs assms(2) have r: "do_round processes t env = Inr env'"
    by (simp add: do_round_seq)
  then have fr: "frame_of env' = frame_of env"
    using do_round_frame [of processes t env env'] by simp
  have "cur_data (population env' ! j) \<noteq> None" if "j < length (population env)" for j
    using do_round_slots [OF ids r that] by auto
  with ready_step [OF assms(1) fr] r show ?thesis by blast
qed

lemma run_rounds_ready:
  assumes "ready env" and "1 \<le> processes"
  shows "\<exists>env'. snd (run_rounds processes ts i n env) = Inr env' \<and> ready env' \<and>
           map fst (fst (run_rounds processes ts i n env)) = [i..<i + n]"
  using assms(1)
proof (induction n arbitrary: i env)
  case 0
  then show ?case by simp
next
  case (Suc n)
  from do_round_ready [OF Suc.prems assms(2), of "ts i"] obtain env1 where
    r: "do_round processes (ts i) env = Inr env1" and ready1: "ready env1" by blast
  from Suc.IH [OF ready1, of "Suc i"] obtain env' where
    "snd (run_rounds processes ts (Suc i) n env1) = Inr env'" "ready env'"
    "map fst (fst (run_rounds processes ts (Suc i) n env1)) = [Suc i..<Suc i + n]"
    by blast
  with r show ?case
    by (simp add: split_beta report_of_def upt_conv_Cons del: upt_Suc)
qed

lemma run_rounds_count:
  "length (fst (run_rounds processes ts i n env)) \<le> n \<and>
   (length (fst (run_rounds processes ts i n env)) = n) =
     (\<not> isl (snd (run_rounds processes ts i n env)))"
proof (induction n arbitrary: i env)
  case 0
  then show ?case by simp
next
  case (Suc n)
  show ?case
  proof (cases "do_round processes (ts i) env")
    case (Inl x)
    then show ?thesis by simp
  next
    case (Inr env1)
    with Suc.IH [of "Suc i" env1] show ?thesis by (simp add: split_beta)
  qed
qed

lemma run_rounds_frame:
  "frame_of (final_env (run_rounds processes ts i n env)) = frame_of env"
proof (induction n arbitrary: i env)
  case 0
  then show ?case by (simp add: final_env_def)
next
  case (Suc n)
  show ?case
  proof (cases "do_round processes (ts i) env")
    case (Inl x)
    obtain e env' where "x = (e, env')" by (cases x)
    with Inl do_round_frame [of processes "ts i" env env' e] show ?thesis
      by (simp add: final_env_def)
  next
    case (Inr env1)
    with Suc.IH [of "Suc i" env1] do_round_frame [of processes "ts i" env env1]
    show ?thesis by (simp add: split_beta final_env_def)
  qed
qed

lemma do_round_independent:
  assumes "1 \<le> p1" and "1 \<le> p2"
  shows "map_sum snd id (do_round p1 t1 env) = map_sum snd id (do_round p2 t2 env)"
proof (cases "mapstar (update env) (population env)")
  case (Inl e)
  from do_round_pool_fails [OF this, of p1 t1] do_round_pool_fails [OF Inl, of p2 t2]
  show ?thesis by auto
next
  case (Inr rs)
  with assms show ?thesis by (simp add: do_round_seq)
qed

lemma run_rounds_independent:
  assumes "1 \<le> p1" and "1 \<le> p2"
  shows "fst (run_rounds p1 ts1 i n env) = fst (run_rounds p2 ts2 i n env) \<and>
         map_sum snd id (snd (run_rounds p1 ts1 i n env)) =
         map_sum snd id (snd (run_rounds p2 ts2 i n env))"
proof (induction n arbitrary: i env)
  case 0
  then show ?case by simp
next
  case (Suc n)
  note d = do_round_independent [OF assms, of "ts1 i" env "ts2 i"]
  show ?case
  proof (cases "do_round p1 (ts1 i) env")
    case (Inl x)
    with d obtain y where "do_round p2 (ts2 i) env = Inl y" "snd y = snd x"
      by (cases "do_round p2 (ts2 i) env") auto
    with Inl show ?thesis by simp
  next
    case (Inr env1)
    with d have "do_round p2 (ts2 i) env = Inr env1"
      by (cases "do_round p2 (ts2 i) env") auto
    with Inr Suc.IH [of "Suc i" env1] show ?thesis by (simp add: split_beta)
  qed
qed

lemma run_rounds_ready_independent:
  assumes "ready env" and "1 \<le> p1" and "1 \<le> p2"
  shows "run_rounds p1 ts1 i n env = run_rounds p2 ts2 i n env"
proof -
  from run_rounds_ready [OF assms(1,2), of ts1 i n] run_rounds_ready [OF assms(1,3), of ts2 i n]
  obtain e1 e2 where "snd (run_rounds p1 ts1 i n env) = Inr e1"
    "snd (run_rounds p2 ts2 i n env) = Inr e2" by blast
  with run_rounds_independent [OF assms(2,3), of ts1 i n env ts2] show ?thesis
    by (simp add: prod_eq_iff)
qed

lemma run_rounds_no_process:
  assumes "processes < 1" and "0 < n"
  shows "run_rounds processes ts i n env = ([], Inl (ValueError, env))"
proof -
  from assms(2) obtain m where "n = Suc m" by (cases n) simp_all
  with assms(1) show ?thesis by (simp add: do_round_def pool_map_def)
qed

lemma run_rounds_chain:
  "\<exists>es. rounds_chain processes ts i env es \<and>
      fst (run_rounds processes ts i n env) = map2 report_of [i..<i + length es] es \<and>
      (case snd (run_rounds processes ts i n env) of
         Inr env' \<Rightarrow> length es = n \<and> env' = last (env # es)
       | Inl x \<Rightarrow> length es < n \<and>
           do_round processes (ts (i + length es)) (last (env # es)) = Inl x)"
proof (induction n arbitrary: i env)
  case 0
  have "rounds_chain processes ts i env [] \<and>
      fst (run_rounds processes ts i 0 env) = map2 report_of [i..<i + length []] [] \<and>
      (case snd (run_rounds processes ts i 0 env) of
         Inr env' \<Rightarrow> length ([] :: environment list) = 0 \<and> env' = last (env # [])
       | Inl x \<Rightarrow> length ([] :: environment list) < 0 \<and>
           do_round processes (ts (i + length ([] :: environment list))) (last (env # [])) = Inl x)"
    by simp
  then show ?case by (rule exI)
next
  case (Suc n)
  show ?case
  proof (cases "do_round processes (ts i) env")
    case (Inl x)
    then have "rounds_chain processes ts i env [] \<and>
      fst (run_rounds processes ts i (Suc n) env) = map2 report_of [i..<i + length []] [] \<and>
      (case snd (run_rounds processes ts i (Suc n) env) of
         Inr env' \<Rightarrow> length ([] :: environment list) = Suc n \<and> env' = last (env # [])
       | Inl x \<Rightarrow> length ([] :: environment list) < Suc n \<and>
           do_round processes (ts (i + length ([] :: environment list))) (last (env # [])) = Inl x)"
      by simp
    then show ?thesis by (rule exI)
  next
    case (Inr e1)
    from Suc.IH [of "Suc i" e1] obtain es where
      c: "rounds_chain processes ts (Suc i) e1 es" and
      r: "fst (run_rounds processes ts (Suc i) n e1) = map2 report_of [Suc i..<Suc i + length es] es" and
      o: "case snd (run_rounds processes ts (Suc i) n e1) of
         Inr env' \<Rightarrow> length es = n \<and> env' = last (e1 # es)
       | Inl x \<Rightarrow> length es < n \<and>
           do_round processes (ts (Suc i + length es)) (last (e1 # es)) = Inl x"
      by blast
    have u: "[i..<i + length (e1 # es)] = i # [Suc i..<Suc i + length es]"
      by (simp add: upt_conv_Cons del: upt_Suc)
    have "rounds_chain processes ts i env (e1 # es)" using Inr c by simp
    moreover have "fst (run_rounds processes ts i (Suc n) env) =
        map2 report_of [i..<i + length (e1 # es)] (e1 # es)"
      unfolding u using Inr r by (simp add: split_beta)
    moreover have "case snd (run_rounds processes ts i (Suc n) env) of
         Inr env' \<Rightarrow> length (e1 # es) = Suc n \<and> env' = last (env # e1 # es)
       | Inl x \<Rightarrow> length (e1 # es) < Suc n \<and>
           do_round processes (ts (i + length (e1 # es))) (last (env # e1 # es)) = Inl x"
      using Inr o by (auto simp: split_beta split: sum.splits)
    ultimately show ?thesis by blast
  qed
qed

subsection \<open>The claims about rounds and runs\<close>

text \<open>
  Claim C1. In a round that commits, whatever a slot of the population holds afterwards
  is either what it held before or the agent of that slot with a value that some agent
  computed on the environment as it was when the round began. When the ids are the
  positions, slot \<open>j\<close> holds agent \<open>j\<close> with the value that
  \<open>calculate_update\<close> gives for agent \<open>j\<close> on the round-start environment, and
  that value is the same on every environment that agrees with the round-start one on
  the shared divisor and on what \<open>f\<close> returns for the agent's neighbours: it depends
  on nothing that the round writes.
\<close>

theorem barrier_round_start_values:
  assumes "do_round processes t env = Inr env'" and "j < length (population env)"
  shows "(population env' ! j = population env ! j \<or>
          (\<exists>a\<in>set (population env). \<exists>a' v. calculate_update a env = Inr (a', v) \<and>
             population env' ! j = (population env ! j)\<lparr>cur_data := Some v\<rparr>)) \<and>
         (ids_ok env \<longrightarrow>
          (\<exists>a' v. calculate_update (population env ! j) env = Inr (a', v) \<and>
             population env' ! j = (population env ! j)\<lparr>cur_data := Some v\<rparr> \<and>
             (\<forall>other. my_special_stuff other = my_special_stuff env \<and>
                (\<forall>x\<in>set (neighbors (population env ! j)).
                   lookup_cur_data other x = lookup_cur_data env x) \<longrightarrow>
                calculate_update (population env ! j) other = Inr (a', v))))"
proof (intro conjI impI)
  show "population env' ! j = population env ! j \<or>
          (\<exists>a\<in>set (population env). \<exists>a' v. calculate_update a env = Inr (a', v) \<and>
             population env' ! j = (population env ! j)\<lparr>cur_data := Some v\<rparr>)"
    using assms by (rule do_round_values)
next
  assume ids: "ids_ok env"
  from do_round_slots [OF ids assms] obtain a' v where
    c: "calculate_update (population env ! j) env = Inr (a', v)" and
    p: "population env' ! j = (population env ! j)\<lparr>cur_data := Some v\<rparr>" by blast
  have "calculate_update (population env ! j) other = Inr (a', v)"
    if "my_special_stuff other = my_special_stuff env \<and>
        (\<forall>x\<in>set (neighbors (population env ! j)).
           lookup_cur_data other x = lookup_cur_data env x)" for other
  proof -
    from that have "calculate_update (population env ! j) other =
        calculate_update (population env ! j) env"
      by (intro calculate_update_agree) simp_all
    with c show ?thesis by simp
  qed
  then have "\<forall>other. my_special_stuff other = my_special_stuff env \<and>
                (\<forall>x\<in>set (neighbors (population env ! j)).
                   lookup_cur_data other x = lookup_cur_data env x) \<longrightarrow>
                calculate_update (population env ! j) other = Inr (a', v)"
    by (intro allI impI)
  with c p show "\<exists>a' v. calculate_update (population env ! j) env = Inr (a', v) \<and>
             population env' ! j = (population env ! j)\<lparr>cur_data := Some v\<rparr> \<and>
             (\<forall>other. my_special_stuff other = my_special_stuff env \<and>
                (\<forall>x\<in>set (neighbors (population env ! j)).
                   lookup_cur_data other x = lookup_cur_data env x) \<longrightarrow>
                calculate_update (population env ! j) other = Inr (a', v))"
    by (intro exI conjI)
qed

text \<open>
  Claim C3. If \<open>calculate_update\<close> raises for some agent of the population, the
  round ends with an exception and the environment is the one the round began with:
  nothing is committed, and the run stops there without a report.
\<close>

theorem failed_round_commits_nothing:
  assumes "a \<in> set (population env)" and "calculate_update a env = Inl e"
  shows "\<exists>e'. do_round processes (ts i) env = Inl (e', env) \<and>
           run_rounds processes ts i (Suc n) env = ([], Inl (e', env))"
proof -
  from update_fails [OF assms(2)] assms(1)
  have "\<exists>x\<in>set (population env). \<exists>e. update env x = Inl e" by blast
  then obtain e1 where "mapstar (update env) (population env) = Inl e1"
    using mapstar_Inl_iff [of "update env" "population env"] by blast
  from do_round_pool_fails [OF this, of processes "ts i"] show ?thesis by auto
qed

lemma neighbor_inv_blank: "neighbor_inv k n (a\<lparr>cur_data := None\<rparr>) = neighbor_inv k n a"
  by (simp add: neighbor_inv_def)

lemma neighbors_ok_frame:
  assumes "frame_of env' = frame_of env"
  shows "neighbors_ok k env' = neighbors_ok k env"
proof -
  from assms have eq: "map (\<lambda>a. a\<lparr>cur_data := None\<rparr>) (population env') =
      map (\<lambda>a. a\<lparr>cur_data := None\<rparr>) (population env)"
    by (drule_tac arg_cong [where f = population]) (simp add: frame_of_def)
  have "neighbors_ok k e =
      list_all (neighbor_inv k (length (population e))) (map (\<lambda>a. a\<lparr>cur_data := None\<rparr>) (population e))"
    for e
    by (simp add: neighbors_ok_def list_all_iff neighbor_inv_blank)
  then show ?thesis by (simp add: eq frame_of_length [OF assms])
qed

text \<open>
  Claim C6. When the setup loop has completed, every agent's neighbour list has no
  duplicates, has as many entries as were asked for, holds positions of the population
  only, and does not hold the agent's own id. The same is true of the environment that a
  run of any number of rounds ends in, normally or by an exception, and the neighbour
  lists there are the ones that setup chose.
\<close>

theorem neighbor_invariant:
  assumes "setup_all ps env g = Inr (env1, g1)"
  shows "neighbors_ok (p_neighbors ps) env1 \<and>
         neighbors_ok (p_neighbors ps) (final_env (run_rounds processes ts i n env1)) \<and>
         map neighbors (population (final_env (run_rounds processes ts i n env1))) =
           map neighbors (population env1)"
proof -
  note fr = run_rounds_frame [of processes ts i n env1]
  from setup_all_neighbors_ok [OF assms] neighbors_ok_frame [OF fr] frame_of_fields [OF fr]
  show ?thesis by simp
qed

text \<open>
  Claim C8, as the code has it. A run of no iterations prints nothing and leaves the
  environment as it is. A run of \<open>n\<close> iterations prints at most \<open>n\<close> reports, and
  exactly \<open>n\<close> if and only if no round raised. The reports are those of the iterations
  \<open>i, i + 1, \<dots>\<close>, one for each round that committed, and each shows the environment
  that its round committed, the rounds following one another. If no round raised, \<open>n\<close>
  rounds have committed and the run ends in the environment of the last; otherwise the
  round after the last report raised and ended the run.
\<close>

theorem round_count:
  "run_rounds processes ts i 0 env = ([], Inr env) \<and>
   length (fst (run_rounds processes ts i n env)) \<le> n \<and>
   (length (fst (run_rounds processes ts i n env)) = n) =
     (\<not> isl (snd (run_rounds processes ts i n env))) \<and>
   (\<exists>es. rounds_chain processes ts i env es \<and>
      fst (run_rounds processes ts i n env) = map2 report_of [i..<i + length es] es \<and>
      (case snd (run_rounds processes ts i n env) of
         Inr env' \<Rightarrow> length es = n \<and> env' = last (env # es)
       | Inl x \<Rightarrow> length es < n \<and>
           do_round processes (ts (i + length es)) (last (env # es)) = Inl x))"
  using run_rounds_count [of processes ts i n env] run_rounds_chain [of processes ts i env n]
  by simp

lemma doit_independent:
  assumes "1 \<le> p1" and "1 \<le> p2"
  shows "doit (ps\<lparr>p_processes := p1\<rparr>) g ts1 = doit (ps\<lparr>p_processes := p2\<rparr>) g ts2"
proof -
  let ?env = "create_agents (nat (p_agents ps)) Environment_init"
  have s: "setup_all (ps\<lparr>p_processes := p\<rparr>) ?env g = setup_all ps ?env g" for p
  proof -
    have "Agent_setup (ps\<lparr>p_processes := p\<rparr>) = Agent_setup ps"
      by (intro ext) (simp add: Agent_setup_def Let_def split: sum.splits prod.splits option.splits)
    then have "setup_slots (ps\<lparr>p_processes := p\<rparr>) js e h = setup_slots ps js e h" for js e h
      by (induction js arbitrary: e h) (simp_all split: sum.splits prod.splits)
    then show ?thesis by (simp add: setup_all_def)
  qed
  show ?thesis
  proof (cases "setup_all ps ?env g")
    case (Inl e)
    then show ?thesis by (simp add: doit_def s)
  next
    case (Inr r)
    obtain env1 g1 where r: "r = (env1, g1)" by (cases r)
    have "ids_ok ?env" by (simp add: ids_ok_create_agents ids_ok_Environment_init)
    moreover have "my_special_stuff ?env \<noteq> 0"
      by (simp add: special_create_agents Environment_init_def)
    ultimately have "ready env1" using Inr r setup_all_ready by blast
    from run_rounds_ready_independent [OF this assms, of ts1 0 "nat (p_iterations ps)" ts2]
    show ?thesis using Inr r by (simp add: doit_def s)
  qed
qed

text \<open>
  Claim C9. Two runs of the round loop from the same environment, with any two numbers of
  worker processes (at least one each) and any two orders of completion, print the same
  reports and end in the same environment, normally or not. Two runs of the whole
  program with the same parameters and the same random draws are equal whatever the
  number of worker processes and the orders of completion.
\<close>

theorem concurrency_independent:
  assumes "1 \<le> p1" and "1 \<le> p2"
  shows "fst (run_rounds p1 ts1 i n env) = fst (run_rounds p2 ts2 i n env) \<and>
         map_sum snd id (snd (run_rounds p1 ts1 i n env)) =
           map_sum snd id (snd (run_rounds p2 ts2 i n env)) \<and>
         doit (ps\<lparr>p_processes := p1\<rparr>) g ts1 = doit (ps\<lparr>p_processes := p2\<rparr>) g ts2"
  using run_rounds_independent [OF assms] doit_independent [OF assms] by simp

section \<open>Concrete runs\<close>

lemma three_agents:
  "create_agents 3 Environment_init =
     \<lparr>population =
        [\<lparr>neighbors = [], cur_data = None, next_data = None, process_time = 0, agent_id = Some 0\<rparr>,
         \<lparr>neighbors = [], cur_data = None, next_data = None, process_time = 0, agent_id = Some 1\<rparr>,
         \<lparr>neighbors = [], cur_data = None, next_data = None, process_time = 0, agent_id = Some 2\<rparr>],
      my_special_stuff = 3\<rparr>"
  by (simp add: Agent_init_eq Environment_init_def numeral_3_eq_3)

lemma setup_all_three:
  "setup_all (sim_params\<lparr>p_neighbors := 2\<rparr>) (create_agents 3 Environment_init) (\<lambda>_. 0) =
   Inr (\<lparr>population =
        [\<lparr>neighbors = [1, 2], cur_data = Some (- 50), next_data = None, process_time = 1 / 4,
          agent_id = Some 0\<rparr>,
         \<lparr>neighbors = [0, 2], cur_data = Some (- 50), next_data = None, process_time = 1 / 4,
          agent_id = Some 1\<rparr>,
         \<lparr>neighbors = [0, 1], cur_data = Some (- 50), next_data = None, process_time = 1 / 4,
          agent_id = Some 2\<rparr>],
      my_special_stuff = 3\<rparr>, \<lambda>_. 0)"
  by (simp add: three_agents setup_all_def Agent_setup_def sim_params_def randint_def randbelow_def
      list_remove_def sample_def upt_rec numeral_2_eq_2 Let_def)

lemma ids_ok_ring: "ids_ok ring_env"
  by (simp add: ids_ok_def ring_env_def upt_rec)

lemma mapstar_ring:
  "mapstar (update ring_env) (population ring_env) = Inr [(0, 30), (1, 50), (2, 40)]"
  by (simp add: ring_env_def update_def calculate_update_def lookup_cur_data_def lookup_def list_index_def Let_def)

lemma commit_ring:
  "commit ring_env [(0, 30), (1, 50), (2, 40)] =
     Inr \<lparr>population =
        [\<lparr>neighbors = [1], cur_data = Some 30, next_data = None, process_time = 0,
          agent_id = Some 0\<rparr>,
         \<lparr>neighbors = [2], cur_data = Some 50, next_data = None, process_time = 0,
          agent_id = Some 1\<rparr>,
         \<lparr>neighbors = [0], cur_data = Some 40, next_data = None, process_time = 0,
          agent_id = Some 2\<rparr>],
      my_special_stuff = 1\<rparr>"
  by (simp add: ring_env_def list_index_def do_update_def)

text \<open>
  Claim C2. One round on the ring of three agents with values 10, 20, 30 and divisor 1
  commits 30, 50 and 40: each agent's value plus its neighbour's value before the round.
\<close>

theorem ring_one_round:
  assumes "1 \<le> processes"
  shows "do_round processes t ring_env =
     Inr \<lparr>population =
        [\<lparr>neighbors = [1], cur_data = Some 30, next_data = None, process_time = 0,
          agent_id = Some 0\<rparr>,
         \<lparr>neighbors = [2], cur_data = Some 50, next_data = None, process_time = 0,
          agent_id = Some 1\<rparr>,
         \<lparr>neighbors = [0], cur_data = Some 40, next_data = None, process_time = 0,
          agent_id = Some 2\<rparr>],
      my_special_stuff = 1\<rparr>"
proof -
  from assms have "do_round processes t ring_env = commit ring_env [(0, 30), (1, 50), (2, 40)]"
    using mapstar_ring by (rule do_round_seq)
  then show ?thesis by (simp only: commit_ring)
qed

theorem ring_one_round_witness:
  "map cur_data (population (projr (do_round 15 (\<lambda>c. c) ring_env))) = [Some 30, Some 50, Some 40]"
  using ring_one_round [of 15 "\<lambda>c. c"] by simp

theorem barrier_round_start_values_witness:
  "\<exists>a' v. calculate_update (population ring_env ! 0) ring_env = Inr (a', v) \<and>
     population (projr (do_round 15 (\<lambda>c. c) ring_env)) ! 0 =
       (population ring_env ! 0)\<lparr>cur_data := Some v\<rparr> \<and>
     calculate_update (population ring_env ! 0)
       (ring_env\<lparr>population :=
          (population ring_env)[2 := (population ring_env ! 2)\<lparr>cur_data := Some 40\<rparr>]\<rparr>) =
       Inr (a', v)"
proof -
  let ?other = "ring_env\<lparr>population :=
          (population ring_env)[2 := (population ring_env ! 2)\<lparr>cur_data := Some 40\<rparr>]\<rparr>"
  have "do_round 15 (\<lambda>c. c) ring_env = commit ring_env [(0, 30), (1, 50), (2, 40)]"
    using _ mapstar_ring by (rule do_round_seq) simp
  then have r: "do_round 15 (\<lambda>c. c) ring_env = Inr (projr (do_round 15 (\<lambda>c. c) ring_env))"
    by (simp only: commit_ring sum.sel)
  have len: "0 < length (population ring_env)" by (simp add: ring_env_def)
  have o: "my_special_stuff ?other = my_special_stuff ring_env \<and>
      (\<forall>x\<in>set (neighbors (population ring_env ! 0)).
         lookup_cur_data ?other x = lookup_cur_data ring_env x)"
    by (simp add: ring_env_def lookup_cur_data_def lookup_def list_index_def)
  from barrier_round_start_values [OF r len, THEN conjunct2, rule_format, OF ids_ok_ring]
  obtain a' v where
    c: "calculate_update (population ring_env ! 0) ring_env = Inr (a', v)" and
    p: "population (projr (do_round 15 (\<lambda>c. c) ring_env)) ! 0 =
       (population ring_env ! 0)\<lparr>cur_data := Some v\<rparr>" and
    a: "\<forall>other. my_special_stuff other = my_special_stuff ring_env \<and>
          (\<forall>x\<in>set (neighbors (population ring_env ! 0)).
             lookup_cur_data other x = lookup_cur_data ring_env x) \<longrightarrow>
          calculate_update (population ring_env ! 0) other = Inr (a', v)"
    by blast
  from spec [OF a, where x = "?other"] o
  have "calculate_update (population ring_env ! 0) ?other = Inr (a', v)"
    by (rule mp)
  with c p show ?thesis by (intro exI conjI)
qed

theorem failed_round_commits_nothing_witness:
  "\<exists>e'. do_round 15 (\<lambda>c. c) (ring_env\<lparr>my_special_stuff := 0\<rparr>) =
          Inl (e', ring_env\<lparr>my_special_stuff := 0\<rparr>) \<and>
        run_rounds 15 (\<lambda>i c. c) 0 (Suc 1) (ring_env\<lparr>my_special_stuff := 0\<rparr>) =
          ([], Inl (e', ring_env\<lparr>my_special_stuff := 0\<rparr>))"
proof -
  have a: "population ring_env ! 0 \<in> set (population (ring_env\<lparr>my_special_stuff := 0\<rparr>))"
    by (simp add: ring_env_def)
  have e: "calculate_update (population ring_env ! 0) (ring_env\<lparr>my_special_stuff := 0\<rparr>) =
      Inl ZeroDivisionError"
    by (simp add: ring_env_def calculate_update_def lookup_cur_data_def lookup_def list_index_def)
  from failed_round_commits_nothing [OF a e, of 15 "\<lambda>i c. c" 0 1] show ?thesis by simp
qed

text \<open>
  With three of the twenty agents registered, \<open>setup\<close> with a neighbour count of 2, the
  population size minus 1, does not fail.
\<close>

theorem setup_sample_size_counterexample:
  "int (length (population (create_agents 3 Environment_init))) - 1 \<le>
     p_neighbors (sim_params\<lparr>p_neighbors := 2\<rparr>) \<and>
   int (length (population (create_agents 3 Environment_init))) <
     p_agents (sim_params\<lparr>p_neighbors := 2\<rparr>) \<and>
   Agent_setup (sim_params\<lparr>p_neighbors := 2\<rparr>) (create_agents 3 Environment_init)
     (population (create_agents 3 Environment_init) ! 0) (\<lambda>_. 0) =
   Inr (\<lparr>neighbors = [1, 2], cur_data = Some (- 50), next_data = None, process_time = 1 / 4,
         agent_id = Some 0\<rparr>, \<lambda>_. 0)"
  by (simp add: three_agents Agent_setup_def sim_params_def randint_def randbelow_def
      list_remove_def sample_def upt_rec numeral_2_eq_2 Let_def)

theorem setup_sample_size_witness:
  "Agent_setup sim_params (create_agents 3 Environment_init)
     (population (create_agents 3 Environment_init) ! 0) (\<lambda>_. 0) = Inl ValueError \<and>
   (\<exists>a' g'. Agent_setup (sim_params\<lparr>p_neighbors := 2\<rparr>) (create_agents 3 Environment_init)
     (population (create_agents 3 Environment_init) ! 0) (\<lambda>_. 0) = Inr (a', g'))"
  using setup_sample_size [of "population (create_agents 3 Environment_init) ! 0" 0
      "create_agents 3 Environment_init" sim_params "\<lambda>_. 0"]
    setup_sample_size [of "population (create_agents 3 Environment_init) ! 0" 0
      "create_agents 3 Environment_init" "sim_params\<lparr>p_neighbors := 2\<rparr>" "\<lambda>_. 0"]
  by (simp add: three_agents sim_params_def)

theorem neighbor_invariant_witness:
  "neighbors_ok 2
     (final_env (run_rounds 15 (\<lambda>i c. c) 0 30
        \<lparr>population =
        [\<lparr>neighbors = [1, 2], cur_data = Some (- 50), next_data = None, process_time = 1 / 4,
          agent_id = Some 0\<rparr>,
         \<lparr>neighbors = [0, 2], cur_data = Some (- 50), next_data = None, process_time = 1 / 4,
          agent_id = Some 1\<rparr>,
         \<lparr>neighbors = [0, 1], cur_data = Some (- 50), next_data = None, process_time = 1 / 4,
          agent_id = Some 2\<rparr>],
      my_special_stuff = 3\<rparr>)) \<and>
   map neighbors (population (final_env (run_rounds 15 (\<lambda>i c. c) 0 30
        \<lparr>population =
        [\<lparr>neighbors = [1, 2], cur_data = Some (- 50), next_data = None, process_time = 1 / 4,
          agent_id = Some 0\<rparr>,
         \<lparr>neighbors = [0, 2], cur_data = Some (- 50), next_data = None, process_time = 1 / 4,
          agent_id = Some 1\<rparr>,
         \<lparr>neighbors = [0, 1], cur_data = Some (- 50), next_data = None, process_time = 1 / 4,
          agent_id = Some 2\<rparr>],
      my_special_stuff = 3\<rparr>))) = [[1, 2], [0, 2], [0, 1]]"
  using neighbor_invariant [OF setup_all_three, of 15 "\<lambda>i c. c" 0 30]
  by (simp add: sim_params_def)

text \<open>
  With \<open>params["processes"]\<close> set to 0 and everything else as in simulation.py, the setup
  succeeds, \<open>Pool\<close> raises in the first of the 30 iterations, and the run prints no
  report.
\<close>

theorem round_count_counterexample:
  "nat (p_iterations (sim_params\<lparr>p_processes := 0\<rparr>)) = 30 \<and>
   doit (sim_params\<lparr>p_processes := 0\<rparr>) (\<lambda>_. 0) (\<lambda>i c. c) = ([], Inl ValueError)"
proof -
  let ?ps = "sim_params\<lparr>p_processes := 0\<rparr>"
  let ?env = "create_agents (nat (p_agents ?ps)) Environment_init"
  have "ids_ok ?env" by (simp add: ids_ok_create_agents ids_ok_Environment_init)
  moreover have "0 \<le> p_max ?ps" "0 \<le> p_neighbors ?ps"
    "p_neighbors ?ps \<le> int (length (population ?env)) - 1"
    by (simp_all add: sim_params_def length_create_agents Environment_init_def)
  ultimately obtain env1 g1 where s: "setup_all ?ps ?env (\<lambda>_. 0) = Inr (env1, g1)"
    using setup_all_succeeds by blast
  have "run_rounds (p_processes ?ps) (\<lambda>i c. c) 0 (nat (p_iterations ?ps)) env1 =
      ([], Inl (ValueError, env1))"
    by (rule run_rounds_no_process) (simp_all add: sim_params_def)
  with s show ?thesis by (simp add: doit_def) (simp add: sim_params_def)
qed

lemma ready_ring: "ready ring_env"
  by (simp add: ready_def ids_ok_ring) (simp add: ring_env_def)

theorem round_count_witness:
  "run_rounds 15 (\<lambda>i c. c) 0 0 ring_env = ([], Inr ring_env) \<and>
   fst (run_rounds 15 (\<lambda>i c. c) 0 1 ring_env) =
     [(0, [(Some 0, Some 30), (Some 1, Some 50), (Some 2, Some 40)])] \<and>
   length (fst (run_rounds 15 (\<lambda>i c. c) 0 30 ring_env)) = 30"
proof -
  let ?ts = "\<lambda>i c. c :: nat"
  have one: "(1::int) \<le> 15" by simp
  note r0 = round_count [of 15 ?ts 0 ring_env 0]
  note r1 = round_count [of 15 ?ts 0 ring_env 1]
  note r30 = round_count [of 15 ?ts 0 ring_env 30]
  from r0 have a: "run_rounds 15 ?ts 0 0 ring_env = ([], Inr ring_env)" by simp
  from run_rounds_ready [OF ready_ring one, of ?ts 0 30]
  have "\<not> isl (snd (run_rounds 15 ?ts 0 30 ring_env))" by auto
  with r30 have c: "length (fst (run_rounds 15 ?ts 0 30 ring_env)) = 30" by simp
  from run_rounds_ready [OF ready_ring one, of ?ts 0 1]
  obtain env' where o: "snd (run_rounds 15 ?ts 0 1 ring_env) = Inr env'" by blast
  from r1 obtain es where
    ch: "rounds_chain 15 ?ts 0 ring_env es" and
    rep: "fst (run_rounds 15 ?ts 0 1 ring_env) = map2 report_of [0..<0 + length es] es" and
    out: "case snd (run_rounds 15 ?ts 0 1 ring_env) of
         Inr env' \<Rightarrow> length es = 1 \<and> env' = last (ring_env # es)
       | Inl x \<Rightarrow> length es < 1 \<and>
           do_round 15 (?ts (0 + length es)) (last (ring_env # es)) = Inl x"
    by blast
  from out o have "length es = 1" by simp
  then obtain e where es: "es = [e]" by (cases es) simp_all
  have "do_round 15 (?ts 0) ring_env = commit ring_env [(0, 30), (1, 50), (2, 40)]"
    using one mapstar_ring by (rule do_round_seq)
  with ch es have "commit ring_env [(0, 30), (1, 50), (2, 40)] = Inr e" by simp
  then have e: "e = \<lparr>population =
        [\<lparr>neighbors = [1], cur_data = Some 30, next_data = None, process_time = 0,
          agent_id = Some 0\<rparr>,
         \<lparr>neighbors = [2], cur_data = Some 50, next_data = None, process_time = 0,
          agent_id = Some 1\<rparr>,
         \<lparr>neighbors = [0], cur_data = Some 40, next_data = None, process_time = 0,
          agent_id = Some 2\<rparr>],
      my_special_stuff = 1\<rparr>"
    by (simp only: commit_ring sum.inject)
  from rep es e have b: "fst (run_rounds 15 ?ts 0 1 ring_env) =
     [(0, [(Some 0, Some 30), (Some 1, Some 50), (Some 2, Some 40)])]"
    by (simp add: report_of_def)
  from a b c show ?thesis by (intro conjI)
qed

theorem concurrency_independent_witness:
  "fst (run_rounds 1 (\<lambda>i c. c) 0 30 ring_env) = fst (run_rounds 15 (\<lambda>i c. 0) 0 30 ring_env) \<and>
   doit (sim_params\<lparr>p_processes := 1\<rparr>) (\<lambda>i. i) (\<lambda>i c. c) =
   doit (sim_params\<lparr>p_processes := 15\<rparr>) (\<lambda>i. i) (\<lambda>i c. 0)"
  using concurrency_independent [of 1 15 "\<lambda>i c. c" 0 30 ring_env "\<lambda>i c. 0" sim_params "\<lambda>i. i"]
  by simp

text \<open>
  With three agents registered and nothing else done, \<open>lookup\<close> of the negative id \<open>-1\<close>
  does not fail: it returns the last agent.
\<close>

theorem lookup_negative_id_counterexample:
  "(- 1 :: int) < 0 \<and>
   lookup (create_agents 3 Environment_init) (- 1) =
     Inr \<lparr>neighbors = [], cur_data = None, next_data = None, process_time = 0,
          agent_id = Some 2\<rparr>"
  by (simp add: lookup_def list_index_def Agent_init_eq Environment_init_def
      numeral_3_eq_3 Let_def)

theorem lookup_python_index_witness:
  "lookup (create_agents 3 Environment_init) 1 =
     Inr \<lparr>neighbors = [], cur_data = None, next_data = None, process_time = 0,
          agent_id = Some 1\<rparr> \<and>
   lookup (create_agents 3 Environment_init) (- 3) =
     Inr \<lparr>neighbors = [], cur_data = None, next_data = None, process_time = 0,
          agent_id = Some 0\<rparr> \<and>
   lookup (create_agents 3 Environment_init) 3 = Inl IndexError \<and>
   lookup (create_agents 3 Environment_init) (- 4) = Inl IndexError"
  using lookup_python_index [of "create_agents 3 Environment_init" 1]
    lookup_python_index [of "create_agents 3 Environment_init" "- 3"]
    lookup_python_index [of "create_agents 3 Environment_init" 3]
    lookup_python_index [of "create_agents 3 Environment_init" "- 4"]
  by (simp add: Agent_init_eq Environment_init_def numeral_3_eq_3)

theorem registration_contract_witness:
  "ids_ok Environment_init \<and>
   map agent_id (population (create_agents 3 Environment_init)) = [Some 0, Some 1, Some 2] \<and>
   lookup (create_agents 3 Environment_init) 2 =
     Inr \<lparr>neighbors = [], cur_data = None, next_data = None, process_time = 0,
          agent_id = Some 2\<rparr>"
  using registration_contract [OF ids_ok_Environment_init,
      of "\<lparr>neighbors = [], cur_data = None, next_data = None, process_time = 0,
           agent_id = None\<rparr>" 3 2]
  by (simp add: ids_ok_def Environment_init_def Agent_init_eq numeral_3_eq_3 upt_rec)

end
